theory Spec2Isabelle
  imports Main "HOL-Library.Sublist" "HOL-Library.Word"
begin

section \<open>The Matrix class of matrix.hpp\<close>

text \<open>
  The class template \<^verbatim>\<open>Matrix<N>\<close> keeps three private members: the vector of row
  vectors \<^verbatim>\<open>_data\<close> and the two counts \<^verbatim>\<open>_rows\<close> and \<^verbatim>\<open>_cols\<close>. The element type
  \<^verbatim>\<open>N\<close> is any HOL type with \<open>0\<close> (the value of a value-initialised number) and
  \<open>+\<close>. The comparison \<^verbatim>\<open>!=\<close> of two elements is the element type's own and a
  parameter \<open>ne\<close> of \<^verbatim>\<open>operator==\<close>: disequality for an integral \<^verbatim>\<open>N\<close>, the IEEE
  comparison for a floating-point \<^verbatim>\<open>N\<close>. The counts are \<^verbatim>\<open>std::size_t\<close>; every loop counter stays below a
  count, so no counter wraps and the counts are natural numbers. Running out of memory
  is outside the model.

  Two things end a run early. A failed \<^verbatim>\<open>assert\<close> aborts the program
  (\<open>AssertionFailed\<close>). \<^verbatim>\<open>std::vector::operator[]\<close> does not check its index; a read
  or write past the end is undefined behaviour, which the model records as
  \<open>OutOfRange\<close> rather than giving it a value.
\<close>

datatype error = AssertionFailed | OutOfRange

record 'a Matrix =
  m_data :: "'a list list"
  m_rows :: nat
  m_cols :: nat

subsection \<open>The pieces of std::vector the class uses\<close>

text \<open>\<^verbatim>\<open>std::vector<N>(n)\<close>: \<open>n\<close> value-initialised elements.\<close>

definition vector_n :: "nat \<Rightarrow> ('a::zero) list" where
  "vector_n n = replicate n 0"

text \<open>\<^verbatim>\<open>v.resize(n, val)\<close>: cut down to \<open>n\<close> elements, or padded with copies of \<open>val\<close>.\<close>

definition vector_resize :: "'a list \<Rightarrow> nat \<Rightarrow> 'a \<Rightarrow> 'a list" where
  "vector_resize v n val =
     (if n \<le> length v then take n v else v @ replicate (n - length v) val)"

text \<open>\<^verbatim>\<open>v[i]\<close> as a read.\<close>

definition vector_at :: "'a list \<Rightarrow> nat \<Rightarrow> error + 'a" where
  "vector_at v i = (if i < length v then Inr (v ! i) else Inl OutOfRange)"

subsection \<open>Constructors and getters\<close>

text \<open>
  \<^verbatim>\<open>Matrix(rows, cols)\<close>: the members \<^verbatim>\<open>_rows\<close> and \<^verbatim>\<open>_cols\<close> are initialised, \<^verbatim>\<open>_data\<close>
  starts empty and is resized in the body.
\<close>

definition Matrix_ctor :: "nat \<Rightarrow> nat \<Rightarrow> ('a::zero) Matrix" where
  "Matrix_ctor rows cols =
     \<lparr>m_data = vector_resize [] rows (vector_n cols), m_rows = rows, m_cols = cols\<rparr>"

text \<open>
  \<^verbatim>\<open>Matrix(rows, cols, init_val)\<close>: the same resize, then the two range-for loops
  assign \<open>init_val\<close> through a reference to every element of every row.
\<close>

fun fill_row :: "'a \<Rightarrow> 'a list \<Rightarrow> 'a list" where
  "fill_row init_val [] = []"
| "fill_row init_val (j # js) = init_val # fill_row init_val js"

fun fill_rows :: "'a \<Rightarrow> 'a list list \<Rightarrow> 'a list list" where
  "fill_rows init_val [] = []"
| "fill_rows init_val (i # is) = fill_row init_val i # fill_rows init_val is"

definition Matrix_ctor_init :: "nat \<Rightarrow> nat \<Rightarrow> ('a::zero) \<Rightarrow> 'a Matrix" where
  "Matrix_ctor_init rows cols init_val =
     \<lparr>m_data = fill_rows init_val (vector_resize [] rows (vector_n cols)),
      m_rows = rows, m_cols = cols\<rparr>"

text \<open>The copy constructor copies the three members.\<close>

definition Matrix_copy :: "'a Matrix \<Rightarrow> 'a Matrix" where
  "Matrix_copy mat = \<lparr>m_data = m_data mat, m_rows = m_rows mat, m_cols = m_cols mat\<rparr>"

definition rows :: "'a Matrix \<Rightarrow> nat" where
  "rows this = m_rows this"

definition cols :: "'a Matrix \<Rightarrow> nat" where
  "cols this = m_cols this"

definition columns :: "'a Matrix \<Rightarrow> nat" where
  "columns this = cols this"

subsection \<open>Indexed access\<close>

text \<open>
  \<^verbatim>\<open>operator[]\<close> (both overloads have the same body): the assertion on the row index,
  then the unchecked \<^verbatim>\<open>_data[idx]\<close>.
\<close>

definition op_index :: "'a Matrix \<Rightarrow> nat \<Rightarrow> error + 'a list" where
  "op_index this idx =
     (if idx < m_rows this then vector_at (m_data this) idx else Inl AssertionFailed)"

text \<open>The two-step read \<^verbatim>\<open>m[i][j]\<close>.\<close>

definition elem_at :: "'a Matrix \<Rightarrow> nat \<Rightarrow> nat \<Rightarrow> error + 'a" where
  "elem_at m i j = (case op_index m i of Inl e \<Rightarrow> Inl e | Inr row \<Rightarrow> vector_at row j)"

text \<open>
  The two-step write \<^verbatim>\<open>m[i][j] = v\<close>: \<^verbatim>\<open>operator[]\<close> hands out a reference to row
  \<open>i\<close>, and the vector's own \<^verbatim>\<open>[j]\<close> a reference to the element that is assigned.
\<close>

definition elem_assign :: "'a Matrix \<Rightarrow> nat \<Rightarrow> nat \<Rightarrow> 'a \<Rightarrow> error + 'a Matrix" where
  "elem_assign m i j v =
     (case op_index m i of
        Inl e \<Rightarrow> Inl e
      | Inr row \<Rightarrow>
          if j < length row then Inr (m\<lparr>m_data := (m_data m)[i := row[j := v]]\<rparr>)
          else Inl OutOfRange)"

text \<open>
  The invariant of the data model: \<^verbatim>\<open>_data\<close> holds \<^verbatim>\<open>_rows\<close> rows of \<^verbatim>\<open>_cols\<close>
  elements each.
\<close>

definition well_formed :: "'a Matrix \<Rightarrow> bool" where
  "well_formed m \<longleftrightarrow>
     length (m_data m) = m_rows m \<and> list_all (\<lambda>row. length row = m_cols m) (m_data m)"

subsection \<open>transpose\<close>

text \<open>
  \<^verbatim>\<open>transpose()\<close> is not a const member, so its frame holds the object itself next to
  the local \<^verbatim>\<open>t\<close>. One pass of the loop body evaluates the right-hand side
  \<^verbatim>\<open>_data[i][j]\<close> (two unchecked vector reads) and assigns it through \<^verbatim>\<open>t[j][i]\<close>.
\<close>

record 'a transpose_frame =
  tf_this :: "'a Matrix"
  tf_t :: "'a Matrix"

definition transpose_body ::
  "'a transpose_frame \<Rightarrow> nat \<Rightarrow> nat \<Rightarrow> error + 'a transpose_frame" where
  "transpose_body st i j =
     (case vector_at (m_data (tf_this st)) i of
        Inl e \<Rightarrow> Inl e
      | Inr row \<Rightarrow>
          (case vector_at row j of
             Inl e \<Rightarrow> Inl e
           | Inr v \<Rightarrow>
               (case elem_assign (tf_t st) j i v of
                  Inl e \<Rightarrow> Inl e
                | Inr t' \<Rightarrow> Inr (st\<lparr>tf_t := t'\<rparr>))))"

lemma transpose_body_this: "transpose_body st i j = Inr st' \<Longrightarrow> tf_this st' = tf_this st"
  by (auto simp: transpose_body_def split: sum.splits)

text \<open>The inner loop \<^verbatim>\<open>for (j = 0; j < cols(); ++j)\<close>, entered at \<open>j\<close>.\<close>

function transpose_inner ::
  "'a transpose_frame \<Rightarrow> nat \<Rightarrow> nat \<Rightarrow> error + 'a transpose_frame" where
  "transpose_inner st i j =
     (if j < cols (tf_this st) then
        (case transpose_body st i j of
           Inl e \<Rightarrow> Inl e
         | Inr st' \<Rightarrow> transpose_inner st' i (Suc j))
      else Inr st)"
  by pat_completeness auto
termination
  by (relation "measure (\<lambda>(st, i, j). cols (tf_this st) - j)")
    (auto simp: transpose_body_this)

declare transpose_inner.simps [simp del]

lemma transpose_inner_this: "transpose_inner st i j = Inr st' \<Longrightarrow> tf_this st' = tf_this st"
proof (induction st i j rule: transpose_inner.induct)
  case (1 st i j)
  show ?case
  proof (cases "j < cols (tf_this st)")
    case True
    with "1.prems" obtain st1 where b: "transpose_body st i j = Inr st1"
      and r: "transpose_inner st1 i (Suc j) = Inr st'"
      by (auto simp: transpose_inner.simps [of st i j] split: sum.splits)
    from "1.IH" [OF True b r] transpose_body_this [OF b] show ?thesis by simp
  next
    case False
    with "1.prems" show ?thesis by (simp add: transpose_inner.simps [of st i j])
  qed
qed

text \<open>The outer loop \<^verbatim>\<open>for (i = 0; i < rows(); ++i)\<close>, entered at \<open>i\<close>.\<close>

function transpose_outer :: "'a transpose_frame \<Rightarrow> nat \<Rightarrow> error + 'a transpose_frame" where
  "transpose_outer st i =
     (if i < rows (tf_this st) then
        (case transpose_inner st i 0 of
           Inl e \<Rightarrow> Inl e
         | Inr st' \<Rightarrow> transpose_outer st' (Suc i))
      else Inr st)"
  by pat_completeness auto
termination
  by (relation "measure (\<lambda>(st, i). rows (tf_this st) - i)")
    (auto simp: transpose_inner_this)

declare transpose_outer.simps [simp del]

text \<open>
  The whole member function. It hands back the final frame: \<open>tf_t\<close> is the returned
  matrix and \<open>tf_this\<close> the object after the call.
\<close>

definition transpose_mat :: "('a::zero) Matrix \<Rightarrow> error + 'a transpose_frame" where
  "transpose_mat this =
     transpose_outer \<lparr>tf_this = this, tf_t = Matrix_ctor (cols this) (rows this)\<rparr> 0"

definition T_mat :: "('a::zero) Matrix \<Rightarrow> error + 'a transpose_frame" where
  "T_mat this = transpose_mat this"

subsection \<open>seq_add and operator+\<close>

text \<open>
  The frame of \<^verbatim>\<open>seq_add\<close>: the object, the argument \<^verbatim>\<open>m\<close> and the local
  \<^verbatim>\<open>result\<close>. Each loop runs three counters side by side, as the source does. The body
  reads \<^verbatim>\<open>_data[i][x]\<close> unchecked, reads \<^verbatim>\<open>m[j][y]\<close> through the asserting
  \<^verbatim>\<open>operator[]\<close>, and assigns the sum through \<^verbatim>\<open>result[k][z]\<close>.
\<close>

record 'a add_frame =
  sa_this :: "'a Matrix"
  sa_m :: "'a Matrix"
  sa_result :: "'a Matrix"

definition seq_add_body ::
  "('a::plus) add_frame \<Rightarrow> nat \<Rightarrow> nat \<Rightarrow> nat \<Rightarrow> nat \<Rightarrow> nat \<Rightarrow> nat \<Rightarrow> error + 'a add_frame"
  where
  "seq_add_body st i j k x y z =
     (case vector_at (m_data (sa_this st)) i of
        Inl e \<Rightarrow> Inl e
      | Inr row \<Rightarrow>
          (case vector_at row x of
             Inl e \<Rightarrow> Inl e
           | Inr lhs \<Rightarrow>
               (case elem_at (sa_m st) j y of
                  Inl e \<Rightarrow> Inl e
                | Inr rhs \<Rightarrow>
                    (case elem_assign (sa_result st) k z (lhs + rhs) of
                       Inl e \<Rightarrow> Inl e
                     | Inr r' \<Rightarrow> Inr (st\<lparr>sa_result := r'\<rparr>)))))"

lemma seq_add_body_this:
  "seq_add_body st i j k x y z = Inr st' \<Longrightarrow> sa_this st' = sa_this st"
  by (auto simp: seq_add_body_def split: sum.splits)

function seq_add_inner ::
  "('a::plus) add_frame \<Rightarrow> nat \<Rightarrow> nat \<Rightarrow> nat \<Rightarrow> nat \<Rightarrow> nat \<Rightarrow> nat \<Rightarrow> error + 'a add_frame"
  where
  "seq_add_inner st i j k x y z =
     (if x < cols (sa_this st) then
        (case seq_add_body st i j k x y z of
           Inl e \<Rightarrow> Inl e
         | Inr st' \<Rightarrow> seq_add_inner st' i j k (Suc x) (Suc y) (Suc z))
      else Inr st)"
  by pat_completeness auto
termination
  by (relation "measure (\<lambda>(st, i, j, k, x, y, z). cols (sa_this st) - x)")
    (auto simp: seq_add_body_this)

declare seq_add_inner.simps [simp del]

lemma seq_add_inner_this:
  "seq_add_inner st i j k x y z = Inr st' \<Longrightarrow> sa_this st' = sa_this st"
proof (induction st i j k x y z rule: seq_add_inner.induct)
  case (1 st i j k x y z)
  show ?case
  proof (cases "x < cols (sa_this st)")
    case True
    with "1.prems" obtain st1 where b: "seq_add_body st i j k x y z = Inr st1"
      and r: "seq_add_inner st1 i j k (Suc x) (Suc y) (Suc z) = Inr st'"
      by (auto simp: seq_add_inner.simps [of st i j k x y z] split: sum.splits)
    from "1.IH" [OF True b r] seq_add_body_this [OF b] show ?thesis by simp
  next
    case False
    with "1.prems" show ?thesis by (simp add: seq_add_inner.simps [of st i j k x y z])
  qed
qed

function seq_add_outer ::
  "('a::plus) add_frame \<Rightarrow> nat \<Rightarrow> nat \<Rightarrow> nat \<Rightarrow> error + 'a add_frame" where
  "seq_add_outer st i j k =
     (if i < rows (sa_this st) then
        (case seq_add_inner st i j k 0 0 0 of
           Inl e \<Rightarrow> Inl e
         | Inr st' \<Rightarrow> seq_add_outer st' (Suc i) (Suc j) (Suc k))
      else Inr st)"
  by pat_completeness auto
termination
  by (relation "measure (\<lambda>(st, i, j, k). rows (sa_this st) - i)")
    (auto simp: seq_add_inner_this)

declare seq_add_outer.simps [simp del]

text \<open>
  The two assertions come first. The final frame holds the returned matrix
  (\<open>sa_result\<close>) and both operands as they are after the call.
\<close>

definition seq_add :: "('a::{zero,plus}) Matrix \<Rightarrow> 'a Matrix \<Rightarrow> error + 'a add_frame" where
  "seq_add this m =
     (if rows this \<noteq> rows m then Inl AssertionFailed
      else if cols this \<noteq> cols m then Inl AssertionFailed
      else seq_add_outer
             \<lparr>sa_this = this, sa_m = m, sa_result = Matrix_ctor (rows this) (cols this)\<rparr>
             0 0 0)"

definition op_plus :: "('a::{zero,plus}) Matrix \<Rightarrow> 'a Matrix \<Rightarrow> error + 'a add_frame" where
  "op_plus this m = seq_add this m"

subsection \<open>operator== and operator!=\<close>

text \<open>
  The concept \<^verbatim>\<open>Number\<close> admits integral and floating-point element types, and
  \<^verbatim>\<open>operator==\<close> tests two elements with the built-in \<^verbatim>\<open>!=\<close> of the type. For an
  integral type that is disequality of the values.
\<close>

definition integral_ne :: "'a \<Rightarrow> 'a \<Rightarrow> bool" where
  "integral_ne l r \<longleftrightarrow> l \<noteq> r"

text \<open>
  A \<^verbatim>\<open>double\<close> is an IEEE 754 binary64 value: a sign bit, 11 exponent bits and 52
  fraction bits. It is a NaN when the exponent bits are all set and the fraction is not
  zero, and a zero when everything but the sign is clear. Every other value has one bit
  pattern. \<^verbatim>\<open>!=\<close> is true when either side is a NaN; otherwise it is false exactly for
  equal bit patterns and for two zeros of either sign.
\<close>

type_synonym double = "64 word"

definition double_is_nan :: "double \<Rightarrow> bool" where
  "double_is_nan v \<longleftrightarrow> take_bit 11 (drop_bit 52 v) = 2047 \<and> take_bit 52 v \<noteq> 0"

definition double_is_zero :: "double \<Rightarrow> bool" where
  "double_is_zero v \<longleftrightarrow> take_bit 63 v = 0"

definition double_ne :: "double \<Rightarrow> double \<Rightarrow> bool" where
  "double_ne l r \<longleftrightarrow>
     double_is_nan l \<or> double_is_nan r
     \<or> (l \<noteq> r \<and> \<not> (double_is_zero l \<and> double_is_zero r))"

text \<open>
  Nothing is assigned in \<^verbatim>\<open>operator==\<close>, so its loops carry no frame. The inner loop
  answers \<open>Some False\<close> when it hits \<^verbatim>\<open>return false\<close> and \<open>None\<close> when it runs to
  its end.
\<close>

function op_eq_inner ::
  "('a \<Rightarrow> 'a \<Rightarrow> bool) \<Rightarrow> 'a Matrix \<Rightarrow> 'a Matrix \<Rightarrow> nat \<Rightarrow> nat \<Rightarrow> nat \<Rightarrow> nat
     \<Rightarrow> error + bool option" where
  "op_eq_inner ne this rhs i j x y =
     (if x < cols this then
        (case vector_at (m_data this) i of
           Inl e \<Rightarrow> Inl e
         | Inr row \<Rightarrow>
             (case vector_at row x of
                Inl e \<Rightarrow> Inl e
              | Inr l \<Rightarrow>
                  (case elem_at rhs j y of
                     Inl e \<Rightarrow> Inl e
                   | Inr r \<Rightarrow>
                       if ne l r then Inr (Some False)
                       else op_eq_inner ne this rhs i j (Suc x) (Suc y))))
      else Inr None)"
  by pat_completeness auto
termination
  by (relation "measure (\<lambda>(ne, this, rhs, i, j, x, y). cols this - x)") auto

declare op_eq_inner.simps [simp del]

function op_eq_outer ::
  "('a \<Rightarrow> 'a \<Rightarrow> bool) \<Rightarrow> 'a Matrix \<Rightarrow> 'a Matrix \<Rightarrow> nat \<Rightarrow> nat \<Rightarrow> error + bool" where
  "op_eq_outer ne this rhs i j =
     (if i < rows this then
        (case op_eq_inner ne this rhs i j 0 0 of
           Inl e \<Rightarrow> Inl e
         | Inr (Some b) \<Rightarrow> Inr b
         | Inr None \<Rightarrow> op_eq_outer ne this rhs (Suc i) (Suc j))
      else Inr True)"
  by pat_completeness auto
termination
  by (relation "measure (\<lambda>(ne, this, rhs, i, j). rows this - i)") auto

declare op_eq_outer.simps [simp del]

definition op_eq :: "('a \<Rightarrow> 'a \<Rightarrow> bool) \<Rightarrow> 'a Matrix \<Rightarrow> 'a Matrix \<Rightarrow> error + bool" where
  "op_eq ne this rhs =
     (if rows this \<noteq> rows rhs then Inl AssertionFailed
      else if cols this \<noteq> cols rhs then Inl AssertionFailed
      else op_eq_outer ne this rhs 0 0)"

definition op_ne :: "('a \<Rightarrow> 'a \<Rightarrow> bool) \<Rightarrow> 'a Matrix \<Rightarrow> 'a Matrix \<Rightarrow> error + bool" where
  "op_ne ne this rhs =
     (case op_eq ne this rhs of Inl e \<Rightarrow> Inl e | Inr b \<Rightarrow> Inr (\<not> b))"

subsection \<open>Copy assignment\<close>

text \<open>
  \<^verbatim>\<open>operator=\<close> compares the address of its argument with \<^verbatim>\<open>this\<close>. An object that
  is passed by reference is therefore an address paired with the value stored there.
  The result is the value of \<^verbatim>\<open>*this\<close> after the assignment.
\<close>

type_synonym 'a ref = "nat \<times> 'a Matrix"

definition op_assign :: "'a ref \<Rightarrow> 'a ref \<Rightarrow> 'a Matrix" where
  "op_assign this m =
     (if fst this = fst m then snd this
      else (snd this)\<lparr>m_data := m_data (snd m), m_rows := m_rows (snd m),
                       m_cols := m_cols (snd m)\<rparr>)"

subsection \<open>Stream insertion\<close>

text \<open>
  \<^verbatim>\<open>operator<<\<close> walks \<^verbatim>\<open>m._data\<close> with two range-for loops. The stream is the text
  written so far; \<open>shw\<close> is the stream's own formatting of one element. The frame keeps
  the matrix next to the stream.
\<close>

record 'a out_frame =
  of_out :: string
  of_m :: "'a Matrix"

fun out_row :: "('a \<Rightarrow> string) \<Rightarrow> 'a out_frame \<Rightarrow> 'a list \<Rightarrow> 'a out_frame" where
  "out_row shw st [] = st"
| "out_row shw st (j # js) =
     out_row shw (st\<lparr>of_out := of_out st @ shw j @ [CHR '' '']\<rparr>) js"

fun out_rows :: "('a \<Rightarrow> string) \<Rightarrow> 'a out_frame \<Rightarrow> 'a list list \<Rightarrow> 'a out_frame" where
  "out_rows shw st [] = st"
| "out_rows shw st (i # is) =
     out_rows shw ((out_row shw st i)\<lparr>of_out := of_out (out_row shw st i) @ [CHR 0x0A]\<rparr>) is"

definition op_shift_out :: "('a \<Rightarrow> string) \<Rightarrow> string \<Rightarrow> 'a Matrix \<Rightarrow> 'a out_frame" where
  "op_shift_out shw out m = out_rows shw \<lparr>of_out = out, of_m = m\<rparr> (m_data m)"

subsection \<open>The demonstration program\<close>

text \<open>
  \<^verbatim>\<open>main\<close> works on \<^verbatim>\<open>Matrix<int>\<close>. An \<^verbatim>\<open>int\<close> is a 32-bit word read as a signed
  number, compared as an integral type; the stream writes it in decimal, and writes a
  \<^verbatim>\<open>bool\<close> as \<open>1\<close> or \<open>0\<close>.
\<close>

type_synonym cint = "32 word"

definition digit_char :: "nat \<Rightarrow> char" where
  "digit_char d = char_of (48 + d)"

function show_nat :: "nat \<Rightarrow> string" where
  "show_nat n =
     (if n < 10 then [digit_char n] else show_nat (n div 10) @ [digit_char (n mod 10)])"
  by pat_completeness auto
termination
  by (relation "measure id") auto

declare show_nat.simps [simp del]

definition show_int :: "int \<Rightarrow> string" where
  "show_int v = (if v < 0 then CHR ''-'' # show_nat (nat (- v)) else show_nat (nat v))"

definition show_cint :: "cint \<Rightarrow> string" where
  "show_cint v = show_int (sint v)"

definition show_bool :: "bool \<Rightarrow> string" where
  "show_bool b = (if b then ''1'' else ''0'')"

text \<open>The value of \<open>main\<close> is what the program has written to standard output.\<close>

definition main :: "error + string" where
  "main =
     (let a = Matrix_ctor_init 2 2 (4 :: cint);
          b = Matrix_ctor_init 2 2 (8 :: cint);
          c = Matrix_ctor_init 2 2 (12 :: cint)
      in case seq_add a b of
           Inl e \<Rightarrow> Inl e
         | Inr fr \<Rightarrow>
             (let a = sa_this fr; res = sa_result fr
              in case op_eq integral_ne res c of
                   Inl e \<Rightarrow> Inl e
                 | Inr eq \<Rightarrow>
                     (let out = show_bool eq @ [CHR 0x0A];
                          out = of_out (op_shift_out show_cint out a) @ [CHR 0x0A];
                          out = out @ ''Result:'' @ [CHR 0x0A];
                          out = of_out (op_shift_out show_cint out res) @ [CHR 0x0A];
                          out = out @ ''C:'' @ [CHR 0x0A];
                          out = of_out (op_shift_out show_cint out c) @ [CHR 0x0A]
                      in Inr out)))"

subsection \<open>Matrices the public operations produce\<close>

text \<open>
  The matrices that the constructors, the copy constructor, copy assignment,
  \<^verbatim>\<open>transpose\<close>/\<^verbatim>\<open>T\<close>, \<^verbatim>\<open>seq_add\<close>/\<^verbatim>\<open>operator+\<close> and an element assignment
  \<^verbatim>\<open>m[i][j] = v\<close> can yield, starting from nothing.
\<close>

inductive produced :: "('a::{zero,plus}) Matrix \<Rightarrow> bool" where
  by_ctor: "produced (Matrix_ctor r c)"
| by_ctor_init: "produced (Matrix_ctor_init r c v)"
| by_copy: "produced mat \<Longrightarrow> produced (Matrix_copy mat)"
| by_assign: "produced this \<Longrightarrow> produced m \<Longrightarrow> produced (op_assign (p, this) (q, m))"
| by_transpose: "produced this \<Longrightarrow> transpose_mat this = Inr fr \<Longrightarrow> produced (tf_t fr)"
| by_T: "produced this \<Longrightarrow> T_mat this = Inr fr \<Longrightarrow> produced (tf_t fr)"
| by_seq_add:
    "produced this \<Longrightarrow> produced m \<Longrightarrow> seq_add this m = Inr afr \<Longrightarrow> produced (sa_result afr)"
| by_plus:
    "produced this \<Longrightarrow> produced m \<Longrightarrow> op_plus this m = Inr afr \<Longrightarrow> produced (sa_result afr)"
| by_elem_assign: "produced m \<Longrightarrow> elem_assign m i j v = Inr m' \<Longrightarrow> produced m'"

section \<open>Properties\<close>

subsection \<open>The constructors\<close>

lemma fill_row_eq: "fill_row v xs = replicate (length xs) v"
  by (induction xs) simp_all

lemma fill_rows_eq: "fill_rows v xss = map (\<lambda>xs. replicate (length xs) v) xss"
  by (induction xss) (simp_all add: fill_row_eq)

lemma Matrix_ctor_data:
  "m_data (Matrix_ctor r c :: ('a::zero) Matrix) = replicate r (replicate c 0)"
  by (simp add: Matrix_ctor_def vector_resize_def vector_n_def)

lemma Matrix_ctor_init_data:
  "m_data (Matrix_ctor_init r c v) = replicate r (replicate c v)"
  by (simp add: Matrix_ctor_init_def vector_resize_def vector_n_def fill_rows_eq)

lemma well_formed_ctor: "well_formed (Matrix_ctor r c)"
  by (simp add: well_formed_def Matrix_ctor_data list_all_length) (simp add: Matrix_ctor_def)

lemma well_formed_ctor_init: "well_formed (Matrix_ctor_init r c v)"
  by (simp add: well_formed_def Matrix_ctor_init_data list_all_length)
    (simp add: Matrix_ctor_init_def)

text \<open>
  C6. For all counts \<open>r\<close> and \<open>c\<close>, zero included, \<^verbatim>\<open>Matrix(r, c)\<close> is an \<open>r\<close> by
  \<open>c\<close> matrix (its getters say so and its data has that shape) whose every element
  reads as \<open>0\<close>, and \<^verbatim>\<open>Matrix(r, c, init)\<close> is an \<open>r\<close> by \<open>c\<close> matrix whose every
  element reads as \<open>init\<close>.
\<close>

theorem C6_constructors:
  "rows (Matrix_ctor r c :: ('a::zero) Matrix) = r
   \<and> cols (Matrix_ctor r c :: 'a Matrix) = c
   \<and> well_formed (Matrix_ctor r c :: 'a Matrix)
   \<and> (\<forall>i j. i < r \<and> j < c \<longrightarrow> elem_at (Matrix_ctor r c :: 'a Matrix) i j = Inr 0)
   \<and> rows (Matrix_ctor_init r c init) = r
   \<and> cols (Matrix_ctor_init r c init) = c
   \<and> well_formed (Matrix_ctor_init r c (init :: 'a))
   \<and> (\<forall>i j. i < r \<and> j < c \<longrightarrow> elem_at (Matrix_ctor_init r c init) i j = Inr init)"
proof -
  have a: "\<forall>i j. i < r \<and> j < c \<longrightarrow> elem_at (Matrix_ctor r c :: 'a Matrix) i j = Inr 0"
    by (simp add: elem_at_def op_index_def vector_at_def Matrix_ctor_data)
      (simp add: Matrix_ctor_def)
  have b: "\<forall>i j. i < r \<and> j < c \<longrightarrow> elem_at (Matrix_ctor_init r c init) i j = Inr init"
    by (simp add: elem_at_def op_index_def vector_at_def Matrix_ctor_init_data)
      (simp add: Matrix_ctor_init_def)
  show ?thesis
    using a b well_formed_ctor [of r c] well_formed_ctor_init [of r c init]
    by (simp add: rows_def cols_def Matrix_ctor_def Matrix_ctor_init_def)
qed

theorem C6_constructors_witness:
  "rows (Matrix_ctor 2 3 :: int Matrix) = 2
   \<and> cols (Matrix_ctor 0 0 :: int Matrix) = 0
   \<and> elem_at (Matrix_ctor 2 3 :: int Matrix) 1 2 = Inr 0
   \<and> m_data (Matrix_ctor_init 2 2 (4 :: int)) = [[4, 4], [4, 4]]
   \<and> elem_at (Matrix_ctor_init 2 2 (4 :: int)) 1 0 = Inr 4"
proof -
  have d: "m_data (Matrix_ctor_init 2 2 (4 :: int)) = [[4, 4], [4, 4]]"
    by (simp add: Matrix_ctor_init_def vector_resize_def vector_n_def numeral_2_eq_2)
  from C6_constructors [of 2 3 "4 :: int"] C6_constructors [of 0 0 "4 :: int"]
    C6_constructors [of 2 2 "4 :: int"] d
  show ?thesis by simp
qed

subsection \<open>The loops on well-formed matrices\<close>

lemma well_formed_iff:
  "well_formed m \<longleftrightarrow>
     length (m_data m) = m_rows m \<and> (\<forall>k<m_rows m. length (m_data m ! k) = m_cols m)"
  by (auto simp: well_formed_def list_all_length)

lemma elem_assign_ok:
  assumes "well_formed t" "j < m_rows t" "i < m_cols t"
  shows "elem_assign t j i v = Inr (t\<lparr>m_data := (m_data t)[j := (m_data t ! j)[i := v]]\<rparr>)"
  using assms by (simp add: elem_assign_def op_index_def vector_at_def well_formed_iff)

lemma well_formed_update:
  assumes "well_formed t" 
  shows "well_formed (t\<lparr>m_data := (m_data t)[j := (m_data t ! j)[i := v]]\<rparr>)"
proof (cases "j < length (m_data t)")
  case True
  with assms show ?thesis by (auto simp: well_formed_iff nth_list_update)
next
  case False
  with assms show ?thesis by (simp add: well_formed_iff)
qed

lemma transpose_body_ok:
  assumes "well_formed (tf_this st)" "well_formed (tf_t st)"
    and "m_rows (tf_t st) = m_cols (tf_this st)" "m_cols (tf_t st) = m_rows (tf_this st)"
    and "i < m_rows (tf_this st)" "j < m_cols (tf_this st)"
  shows "transpose_body st i j =
    Inr (st\<lparr>tf_t := (tf_t st)\<lparr>m_data :=
      (m_data (tf_t st))[j := (m_data (tf_t st) ! j)[i := m_data (tf_this st) ! i ! j]]\<rparr>\<rparr>)"
proof -
  have r: "vector_at (m_data (tf_this st)) i = Inr (m_data (tf_this st) ! i)"
    using assms(1,5) by (simp add: vector_at_def well_formed_iff)
  have e: "vector_at (m_data (tf_this st) ! i) j = Inr (m_data (tf_this st) ! i ! j)"
    using assms(1,5,6) by (simp add: vector_at_def well_formed_iff)
  show ?thesis
    using assms(3-6) by (simp add: transpose_body_def r e elem_assign_ok [OF assms(2)])
qed

lemma transpose_inner_ok:
  assumes "well_formed (tf_this st)" "well_formed (tf_t st)"
    and "m_rows (tf_t st) = m_cols (tf_this st)" "m_cols (tf_t st) = m_rows (tf_this st)"
    and "i < m_rows (tf_this st)"
  shows "\<exists>t'. transpose_inner st i j = Inr (st\<lparr>tf_t := t'\<rparr>) \<and> well_formed t'
    \<and> m_rows t' = m_rows (tf_t st) \<and> m_cols t' = m_cols (tf_t st)
    \<and> (\<forall>q p. q < m_cols (tf_this st) \<and> p < m_rows (tf_this st) \<longrightarrow>
          m_data t' ! q ! p =
            (if p = i \<and> j \<le> q then m_data (tf_this st) ! i ! q else m_data (tf_t st) ! q ! p))"
  using assms
proof (induction st i j rule: transpose_inner.induct)
  case (1 st i j)
  let ?a = "tf_this st"
  let ?t = "tf_t st"
  show ?case
  proof (cases "j < cols ?a")
    case False
    then have "transpose_inner st i j = Inr (st\<lparr>tf_t := ?t\<rparr>)"
      by (simp add: transpose_inner.simps [of st i j])
    moreover from False have "\<forall>q. q < m_cols ?a \<longrightarrow> \<not> j \<le> q"
      by (simp add: cols_def)
    ultimately show ?thesis using "1.prems"(2) by (intro exI [of _ ?t]) simp
  next
    case True
    then have jlt: "j < m_cols ?a" by (simp add: cols_def)
    define t1 where "t1 = ?t\<lparr>m_data := (m_data ?t)[j := (m_data ?t ! j)[i := m_data ?a ! i ! j]]\<rparr>"
    define st1 where "st1 = st\<lparr>tf_t := t1\<rparr>"
    have b: "transpose_body st i j = Inr st1"
      unfolding st1_def t1_def
      by (rule transpose_body_ok [OF "1.prems"(1-5) jlt])
    have wf1: "well_formed (tf_t st1)"
      using well_formed_update [OF "1.prems"(2)] by (simp add: st1_def t1_def)
    have this1: "tf_this st1 = ?a" by (simp add: st1_def)
    have sh1: "m_rows (tf_t st1) = m_rows ?t" "m_cols (tf_t st1) = m_cols ?t"
      by (simp_all add: st1_def t1_def)
    from "1.IH" [OF True b] "1.prems" wf1 this1 sh1
    obtain t' where r: "transpose_inner st1 i (Suc j) = Inr (st1\<lparr>tf_t := t'\<rparr>)"
      and wf': "well_formed t'"
      and sh': "m_rows t' = m_rows ?t" "m_cols t' = m_cols ?t"
      and el: "\<forall>q p. q < m_cols ?a \<and> p < m_rows ?a \<longrightarrow>
          m_data t' ! q ! p =
            (if p = i \<and> Suc j \<le> q then m_data ?a ! i ! q else m_data (tf_t st1) ! q ! p)"
      by auto
    have res: "transpose_inner st i j = Inr (st\<lparr>tf_t := t'\<rparr>)"
      using True b r by (simp add: transpose_inner.simps [of st i j] st1_def)
    have old: "\<forall>q p. q < m_cols ?a \<and> p < m_rows ?a \<longrightarrow>
        m_data (tf_t st1) ! q ! p = (if p = i \<and> q = j then m_data ?a ! i ! q else m_data ?t ! q ! p)"
      using "1.prems"(2-5) jlt
      by (auto simp: st1_def t1_def well_formed_iff nth_list_update)
    have "\<forall>q p. q < m_cols ?a \<and> p < m_rows ?a \<longrightarrow>
          m_data t' ! q ! p =
            (if p = i \<and> j \<le> q then m_data ?a ! i ! q else m_data ?t ! q ! p)"
      using el old by (auto simp: le_Suc_eq)
    with res wf' sh' show ?thesis by blast
  qed
qed

lemma transpose_outer_ok:
  assumes "well_formed (tf_this st)" "well_formed (tf_t st)"
    and "m_rows (tf_t st) = m_cols (tf_this st)" "m_cols (tf_t st) = m_rows (tf_this st)"
  shows "\<exists>t'. transpose_outer st i = Inr (st\<lparr>tf_t := t'\<rparr>) \<and> well_formed t'
    \<and> m_rows t' = m_rows (tf_t st) \<and> m_cols t' = m_cols (tf_t st)
    \<and> (\<forall>q p. q < m_cols (tf_this st) \<and> p < m_rows (tf_this st) \<longrightarrow>
          m_data t' ! q ! p =
            (if i \<le> p then m_data (tf_this st) ! p ! q else m_data (tf_t st) ! q ! p))"
  using assms
proof (induction st i rule: transpose_outer.induct)
  case (1 st i)
  let ?a = "tf_this st"
  let ?t = "tf_t st"
  show ?case
  proof (cases "i < rows ?a")
    case False
    then have "transpose_outer st i = Inr (st\<lparr>tf_t := ?t\<rparr>)"
      by (simp add: transpose_outer.simps [of st i])
    moreover from False have "\<forall>p. p < m_rows ?a \<longrightarrow> \<not> i \<le> p"
      by (simp add: rows_def)
    ultimately show ?thesis using "1.prems"(2) by (intro exI [of _ ?t]) simp
  next
    case True
    then have ilt: "i < m_rows ?a" by (simp add: rows_def)
    from transpose_inner_ok [OF "1.prems" ilt, of 0]
    obtain t1 where b: "transpose_inner st i 0 = Inr (st\<lparr>tf_t := t1\<rparr>)"
      and wf1: "well_formed t1"
      and sh1: "m_rows t1 = m_rows ?t" "m_cols t1 = m_cols ?t"
      and el1: "\<forall>q p. q < m_cols ?a \<and> p < m_rows ?a \<longrightarrow>
          m_data t1 ! q ! p = (if p = i then m_data ?a ! i ! q else m_data ?t ! q ! p)"
      by auto
    define st1 where "st1 = st\<lparr>tf_t := t1\<rparr>"
    have b': "transpose_inner st i 0 = Inr st1" using b by (simp add: st1_def)
    from "1.IH" [OF True b'] "1.prems" wf1 sh1
    obtain t' where r: "transpose_outer st1 (Suc i) = Inr (st1\<lparr>tf_t := t'\<rparr>)"
      and wf': "well_formed t'"
      and sh': "m_rows t' = m_rows ?t" "m_cols t' = m_cols ?t"
      and el: "\<forall>q p. q < m_cols ?a \<and> p < m_rows ?a \<longrightarrow>
          m_data t' ! q ! p =
            (if Suc i \<le> p then m_data ?a ! p ! q else m_data t1 ! q ! p)"
      by (auto simp: st1_def)
    have res: "transpose_outer st i = Inr (st\<lparr>tf_t := t'\<rparr>)"
      using True b' r by (simp add: transpose_outer.simps [of st i] st1_def)
    have "\<forall>q p. q < m_cols ?a \<and> p < m_rows ?a \<longrightarrow>
          m_data t' ! q ! p =
            (if i \<le> p then m_data ?a ! p ! q else m_data ?t ! q ! p)"
    proof (intro allI impI)
      fix q p
      assume qp: "q < m_cols ?a \<and> p < m_rows ?a"
      have c: "i \<le> p \<longleftrightarrow> p = i \<or> Suc i \<le> p" by arith
      from el qp el1 show "m_data t' ! q ! p =
          (if i \<le> p then m_data ?a ! p ! q else m_data ?t ! q ! p)"
        unfolding c by auto
    qed
    with res wf' sh' show ?thesis by blast
  qed
qed

lemma transpose_mat_spec:
  assumes "well_formed a"
  shows "\<exists>t. transpose_mat a = Inr \<lparr>tf_this = a, tf_t = t\<rparr> \<and> well_formed t
    \<and> m_rows t = m_cols a \<and> m_cols t = m_rows a
    \<and> (\<forall>i j. i < m_rows a \<and> j < m_cols a \<longrightarrow> m_data t ! j ! i = m_data a ! i ! j)"
proof -
  let ?st = "\<lparr>tf_this = a, tf_t = Matrix_ctor (cols a) (rows a)\<rparr>"
  have "well_formed (tf_this ?st)" using assms by simp
  moreover have "well_formed (tf_t ?st)" by (simp add: well_formed_ctor)
  moreover have "m_rows (tf_t ?st) = m_cols (tf_this ?st)" "m_cols (tf_t ?st) = m_rows (tf_this ?st)"
    by (simp_all add: Matrix_ctor_def rows_def cols_def)
  ultimately obtain t' where "transpose_outer ?st 0 = Inr (?st\<lparr>tf_t := t'\<rparr>)"
    "well_formed t'" "m_rows t' = m_rows (tf_t ?st)" "m_cols t' = m_cols (tf_t ?st)"
    "\<forall>q p. q < m_cols (tf_this ?st) \<and> p < m_rows (tf_this ?st) \<longrightarrow>
          m_data t' ! q ! p =
            (if 0 \<le> p then m_data (tf_this ?st) ! p ! q else m_data (tf_t ?st) ! q ! p)"
    using transpose_outer_ok [of ?st 0] by blast
  then show ?thesis
    by (intro exI [of _ t']) (simp add: transpose_mat_def Matrix_ctor_def rows_def cols_def)
qed

lemma vector_at_wf:
  "well_formed a \<Longrightarrow> i < m_rows a \<Longrightarrow> vector_at (m_data a) i = Inr (m_data a ! i)"
  by (simp add: vector_at_def well_formed_iff)

lemma vector_at_row_wf:
  "well_formed a \<Longrightarrow> i < m_rows a \<Longrightarrow> j < m_cols a \<Longrightarrow>
     vector_at (m_data a ! i) j = Inr (m_data a ! i ! j)"
  by (simp add: vector_at_def well_formed_iff)

lemma elem_at_wf:
  "well_formed a \<Longrightarrow> i < m_rows a \<Longrightarrow> j < m_cols a \<Longrightarrow>
     elem_at a i j = Inr (m_data a ! i ! j)"
  by (simp add: elem_at_def op_index_def vector_at_wf vector_at_row_wf)

lemma seq_add_body_ok:
  assumes "well_formed (sa_this st)" "well_formed (sa_m st)" "well_formed (sa_result st)"
    and "m_rows (sa_m st) = m_rows (sa_this st)" "m_cols (sa_m st) = m_cols (sa_this st)"
    and "m_rows (sa_result st) = m_rows (sa_this st)"
    and "m_cols (sa_result st) = m_cols (sa_this st)"
    and "i < m_rows (sa_this st)" "x < m_cols (sa_this st)"
  shows "seq_add_body st i i i x x x =
    Inr (st\<lparr>sa_result := (sa_result st)\<lparr>m_data :=
      (m_data (sa_result st))[i := (m_data (sa_result st) ! i)
         [x := m_data (sa_this st) ! i ! x + m_data (sa_m st) ! i ! x]]\<rparr>\<rparr>)"
  using assms(4-9)
  by (simp add: seq_add_body_def vector_at_wf [OF assms(1)] vector_at_row_wf [OF assms(1)]
      elem_at_wf [OF assms(2)] elem_assign_ok [OF assms(3)])

lemma seq_add_inner_ok:
  assumes "well_formed (sa_this st)" "well_formed (sa_m st)" "well_formed (sa_result st)"
    and "m_rows (sa_m st) = m_rows (sa_this st)" "m_cols (sa_m st) = m_cols (sa_this st)"
    and "m_rows (sa_result st) = m_rows (sa_this st)"
    and "m_cols (sa_result st) = m_cols (sa_this st)"
    and "i < m_rows (sa_this st)" "j = i" "k = i" "y = x" "z = x"
  shows "\<exists>r'. seq_add_inner st i j k x y z = Inr (st\<lparr>sa_result := r'\<rparr>) \<and> well_formed r'
    \<and> m_rows r' = m_rows (sa_result st) \<and> m_cols r' = m_cols (sa_result st)
    \<and> (\<forall>p q. p < m_rows (sa_this st) \<and> q < m_cols (sa_this st) \<longrightarrow>
          m_data r' ! p ! q =
            (if p = i \<and> x \<le> q then m_data (sa_this st) ! i ! q + m_data (sa_m st) ! i ! q
             else m_data (sa_result st) ! p ! q))"
  using assms
proof (induction st i j k x y z rule: seq_add_inner.induct)
  case (1 st i j k x y z)
  let ?a = "sa_this st"
  let ?b = "sa_m st"
  let ?r = "sa_result st"
  note jk = \<open>j = i\<close> \<open>k = i\<close> \<open>y = x\<close> \<open>z = x\<close>
  show ?case
  proof (cases "x < cols ?a")
    case False
    then have "seq_add_inner st i j k x y z = Inr (st\<lparr>sa_result := ?r\<rparr>)"
      by (simp add: seq_add_inner.simps [of st i j k x y z])
    moreover from False have "\<forall>q. q < m_cols ?a \<longrightarrow> \<not> x \<le> q"
      by (simp add: cols_def)
    ultimately show ?thesis using "1.prems"(3) by (intro exI [of _ ?r]) simp
  next
    case True
    then have xlt: "x < m_cols ?a" by (simp add: cols_def)
    define r1 where "r1 = ?r\<lparr>m_data :=
      (m_data ?r)[i := (m_data ?r ! i)[x := m_data ?a ! i ! x + m_data ?b ! i ! x]]\<rparr>"
    define st1 where "st1 = st\<lparr>sa_result := r1\<rparr>"
    have b: "seq_add_body st i j k x y z = Inr st1"
      unfolding st1_def r1_def jk
      by (rule seq_add_body_ok [OF "1.prems"(1-8) xlt])
    have wf1: "well_formed (sa_result st1)"
      using well_formed_update [OF "1.prems"(3)] by (simp add: st1_def r1_def)
    have same: "sa_this st1 = ?a" "sa_m st1 = ?b" by (simp_all add: st1_def)
    have sh1: "m_rows (sa_result st1) = m_rows ?r" "m_cols (sa_result st1) = m_cols ?r"
      by (simp_all add: st1_def r1_def)
    from "1.IH" [OF True b] "1.prems" wf1 same sh1
    obtain r' where r: "seq_add_inner st1 i j k (Suc x) (Suc y) (Suc z) = Inr (st1\<lparr>sa_result := r'\<rparr>)"
      and wf': "well_formed r'"
      and sh': "m_rows r' = m_rows ?r" "m_cols r' = m_cols ?r"
      and el: "\<forall>p q. p < m_rows ?a \<and> q < m_cols ?a \<longrightarrow>
          m_data r' ! p ! q =
            (if p = i \<and> Suc x \<le> q then m_data ?a ! i ! q + m_data ?b ! i ! q
             else m_data (sa_result st1) ! p ! q)"
      by auto
    have res: "seq_add_inner st i j k x y z = Inr (st\<lparr>sa_result := r'\<rparr>)"
      using True b r by (simp add: seq_add_inner.simps [of st i j k x y z] st1_def)
    have old: "\<forall>p q. p < m_rows ?a \<and> q < m_cols ?a \<longrightarrow>
        m_data (sa_result st1) ! p ! q =
          (if p = i \<and> q = x then m_data ?a ! i ! q + m_data ?b ! i ! q
           else m_data ?r ! p ! q)"
      using "1.prems"(3,6,7,8) xlt
      by (auto simp: st1_def r1_def well_formed_iff nth_list_update)
    have "\<forall>p q. p < m_rows ?a \<and> q < m_cols ?a \<longrightarrow>
          m_data r' ! p ! q =
            (if p = i \<and> x \<le> q then m_data ?a ! i ! q + m_data ?b ! i ! q
             else m_data ?r ! p ! q)"
    proof (intro allI impI)
      fix p q
      assume pq: "p < m_rows ?a \<and> q < m_cols ?a"
      have c: "x \<le> q \<longleftrightarrow> q = x \<or> Suc x \<le> q" by arith
      from el pq old show "m_data r' ! p ! q =
          (if p = i \<and> x \<le> q then m_data ?a ! i ! q + m_data ?b ! i ! q
           else m_data ?r ! p ! q)"
        unfolding c by auto
    qed
    with res wf' sh' show ?thesis by blast
  qed
qed

lemma seq_add_outer_ok:
  assumes "well_formed (sa_this st)" "well_formed (sa_m st)" "well_formed (sa_result st)"
    and "m_rows (sa_m st) = m_rows (sa_this st)" "m_cols (sa_m st) = m_cols (sa_this st)"
    and "m_rows (sa_result st) = m_rows (sa_this st)"
    and "m_cols (sa_result st) = m_cols (sa_this st)"
    and "j = i" "k = i"
  shows "\<exists>r'. seq_add_outer st i j k = Inr (st\<lparr>sa_result := r'\<rparr>) \<and> well_formed r'
    \<and> m_rows r' = m_rows (sa_result st) \<and> m_cols r' = m_cols (sa_result st)
    \<and> (\<forall>p q. p < m_rows (sa_this st) \<and> q < m_cols (sa_this st) \<longrightarrow>
          m_data r' ! p ! q =
            (if i \<le> p then m_data (sa_this st) ! p ! q + m_data (sa_m st) ! p ! q
             else m_data (sa_result st) ! p ! q))"
  using assms
proof (induction st i j k rule: seq_add_outer.induct)
  case (1 st i j k)
  let ?a = "sa_this st"
  let ?b = "sa_m st"
  let ?r = "sa_result st"
  note jk = \<open>j = i\<close> \<open>k = i\<close>
  show ?case
  proof (cases "i < rows ?a")
    case False
    then have "seq_add_outer st i j k = Inr (st\<lparr>sa_result := ?r\<rparr>)"
      by (simp add: seq_add_outer.simps [of st i j k])
    moreover from False have "\<forall>p. p < m_rows ?a \<longrightarrow> \<not> i \<le> p"
      by (simp add: rows_def)
    ultimately show ?thesis using "1.prems"(3) by (intro exI [of _ ?r]) simp
  next
    case True
    then have ilt: "i < m_rows ?a" by (simp add: rows_def)
    from seq_add_inner_ok [OF "1.prems"(1-7) ilt jk refl refl, of 0]
    obtain r1 where b: "seq_add_inner st i j k 0 0 0 = Inr (st\<lparr>sa_result := r1\<rparr>)"
      and wf1: "well_formed r1"
      and sh1: "m_rows r1 = m_rows ?r" "m_cols r1 = m_cols ?r"
      and el1: "\<forall>p q. p < m_rows ?a \<and> q < m_cols ?a \<longrightarrow>
          m_data r1 ! p ! q =
            (if p = i then m_data ?a ! i ! q + m_data ?b ! i ! q else m_data ?r ! p ! q)"
      by auto
    define st1 where "st1 = st\<lparr>sa_result := r1\<rparr>"
    have b': "seq_add_inner st i j k 0 0 0 = Inr st1" using b by (simp add: st1_def)
    from "1.IH" [OF True b'] "1.prems" wf1 sh1
    obtain r' where r: "seq_add_outer st1 (Suc i) (Suc j) (Suc k) = Inr (st1\<lparr>sa_result := r'\<rparr>)"
      and wf': "well_formed r'"
      and sh': "m_rows r' = m_rows ?r" "m_cols r' = m_cols ?r"
      and el: "\<forall>p q. p < m_rows ?a \<and> q < m_cols ?a \<longrightarrow>
          m_data r' ! p ! q =
            (if Suc i \<le> p then m_data ?a ! p ! q + m_data ?b ! p ! q
             else m_data r1 ! p ! q)"
      by (auto simp: st1_def)
    have res: "seq_add_outer st i j k = Inr (st\<lparr>sa_result := r'\<rparr>)"
      using True b' r by (simp add: seq_add_outer.simps [of st i j k] st1_def)
    have "\<forall>p q. p < m_rows ?a \<and> q < m_cols ?a \<longrightarrow>
          m_data r' ! p ! q =
            (if i \<le> p then m_data ?a ! p ! q + m_data ?b ! p ! q else m_data ?r ! p ! q)"
    proof (intro allI impI)
      fix p q
      assume pq: "p < m_rows ?a \<and> q < m_cols ?a"
      have c: "i \<le> p \<longleftrightarrow> p = i \<or> Suc i \<le> p" by arith
      from el pq el1 show "m_data r' ! p ! q =
          (if i \<le> p then m_data ?a ! p ! q + m_data ?b ! p ! q else m_data ?r ! p ! q)"
        unfolding c by auto
    qed
    with res wf' sh' show ?thesis by blast
  qed
qed

lemma seq_add_spec:
  assumes "well_formed a" "well_formed b" "rows a = rows b" "cols a = cols b"
  shows "\<exists>r. seq_add a b = Inr \<lparr>sa_this = a, sa_m = b, sa_result = r\<rparr> \<and> well_formed r
    \<and> m_rows r = m_rows a \<and> m_cols r = m_cols a
    \<and> (\<forall>i j. i < m_rows a \<and> j < m_cols a \<longrightarrow>
          m_data r ! i ! j = m_data a ! i ! j + m_data b ! i ! j)"
proof -
  let ?st = "\<lparr>sa_this = a, sa_m = b, sa_result = Matrix_ctor (rows a) (cols a)\<rparr>"
  have "\<exists>r'. seq_add_outer ?st 0 0 0 = Inr (?st\<lparr>sa_result := r'\<rparr>) \<and> well_formed r'
    \<and> m_rows r' = m_rows (sa_result ?st) \<and> m_cols r' = m_cols (sa_result ?st)
    \<and> (\<forall>p q. p < m_rows (sa_this ?st) \<and> q < m_cols (sa_this ?st) \<longrightarrow>
          m_data r' ! p ! q =
            (if 0 \<le> p then m_data (sa_this ?st) ! p ! q + m_data (sa_m ?st) ! p ! q
             else m_data (sa_result ?st) ! p ! q))"
    using assms
    by (intro seq_add_outer_ok)
      (simp_all add: well_formed_ctor, simp_all add: Matrix_ctor_def rows_def cols_def)
  then obtain r' where "seq_add_outer ?st 0 0 0 = Inr (?st\<lparr>sa_result := r'\<rparr>)"
    "well_formed r'" "m_rows r' = m_rows (sa_result ?st)" "m_cols r' = m_cols (sa_result ?st)"
    "\<forall>p q. p < m_rows (sa_this ?st) \<and> q < m_cols (sa_this ?st) \<longrightarrow>
          m_data r' ! p ! q =
            (if 0 \<le> p then m_data (sa_this ?st) ! p ! q + m_data (sa_m ?st) ! p ! q
             else m_data (sa_result ?st) ! p ! q)"
    by blast
  then show ?thesis
    using assms(3,4)
    by (intro exI [of _ r']) (simp add: seq_add_def Matrix_ctor_def rows_def cols_def)
qed

lemma op_eq_inner_ok:
  assumes "well_formed a" "well_formed b" "m_rows b = m_rows a" "m_cols b = m_cols a"
    and "i < m_rows a" "j = i" "y = x"
  shows "op_eq_inner ne a b i j x y =
    Inr (if \<forall>q. x \<le> q \<and> q < m_cols a \<longrightarrow> \<not> ne (m_data a ! i ! q) (m_data b ! i ! q)
         then None else Some False)"
  using assms
proof (induction ne a b i j x y rule: op_eq_inner.induct)
  case (1 ne a b i j x y)
  note jy = \<open>j = i\<close> \<open>y = x\<close>
  let ?same = "\<lambda>k. \<forall>q. k \<le> q \<and> q < m_cols a \<longrightarrow> \<not> ne (m_data a ! i ! q) (m_data b ! i ! q)"
  show ?case
  proof (cases "x < cols a")
    case False
    then show ?thesis by (auto simp: op_eq_inner.simps [of ne a b i j x y] cols_def)
  next
    case True
    then have xlt: "x < m_cols a" by (simp add: cols_def)
    have row: "vector_at (m_data a) i = Inr (m_data a ! i)"
      by (rule vector_at_wf [OF "1.prems"(1,5)])
    have l: "vector_at (m_data a ! i) x = Inr (m_data a ! i ! x)"
      by (rule vector_at_row_wf [OF "1.prems"(1,5) xlt])
    have r: "elem_at b j y = Inr (m_data b ! i ! x)"
      using "1.prems"(3-5) xlt by (simp add: jy elem_at_wf [OF "1.prems"(2)])
    show ?thesis
    proof (cases "ne (m_data a ! i ! x) (m_data b ! i ! x)")
      case differ: True
      then have "\<not> ?same x" using xlt by auto
      moreover have "op_eq_inner ne a b i j x y = Inr (Some False)"
        using True differ row l r by (simp add: op_eq_inner.simps [of ne a b i j x y])
      ultimately show ?thesis by simp
    next
      case same: False
      have step: "op_eq_inner ne a b i j x y = op_eq_inner ne a b i j (Suc x) (Suc y)"
        using True same row l r by (simp add: op_eq_inner.simps [of ne a b i j x y])
      have ih: "op_eq_inner ne a b i j (Suc x) (Suc y)
          = Inr (if ?same (Suc x) then None else Some False)"
        using "1.IH" [OF True row l r same "1.prems"(1-6)] jy by simp
      have "?same x \<longleftrightarrow> ?same (Suc x)"
      proof
        assume "?same x"
        then show "?same (Suc x)" by auto
      next
        assume s: "?same (Suc x)"
        show "?same x"
        proof (intro allI impI)
          fix q
          assume q: "x \<le> q \<and> q < m_cols a"
          show "\<not> ne (m_data a ! i ! q) (m_data b ! i ! q)"
          proof (cases "q = x")
            case True
            with same show ?thesis by simp
          next
            case False
            with q have "Suc x \<le> q" by arith
            with s q show ?thesis by blast
          qed
        qed
      qed
      with step ih show ?thesis by simp
    qed
  qed
qed

lemma op_eq_outer_ok:
  assumes "well_formed a" "well_formed b" "m_rows b = m_rows a" "m_cols b = m_cols a"
    and "j = i"
  shows "op_eq_outer ne a b i j =
    Inr (\<forall>p q. i \<le> p \<and> p < m_rows a \<and> q < m_cols a \<longrightarrow>
           \<not> ne (m_data a ! p ! q) (m_data b ! p ! q))"
  using assms
proof (induction ne a b i j rule: op_eq_outer.induct)
  case (1 ne a b i j)
  show ?case
  proof (cases "i < rows a")
    case False
    then show ?thesis by (auto simp: op_eq_outer.simps [of ne a b i j] rows_def)
  next
    case True
    then have ilt: "i < m_rows a" by (simp add: rows_def)
    let ?rowsame = "\<forall>q<m_cols a. \<not> ne (m_data a ! i ! q) (m_data b ! i ! q)"
    let ?rest = "\<lambda>k. \<forall>p q. k \<le> p \<and> p < m_rows a \<and> q < m_cols a \<longrightarrow>
           \<not> ne (m_data a ! p ! q) (m_data b ! p ! q)"
    have inner: "op_eq_inner ne a b i j 0 0 = Inr (if ?rowsame then None else Some False)"
      using op_eq_inner_ok [OF "1.prems"(1-4) ilt "1.prems"(5) refl, of ne 0] by simp
    show ?thesis
    proof (cases ?rowsame)
      case False
      then have inner': "op_eq_inner ne a b i j 0 0 = Inr (Some False)"
        using inner by simp
      have res: "op_eq_outer ne a b i j = Inr False"
        using True inner' by (simp add: op_eq_outer.simps [of ne a b i j])
      from False obtain q where "q < m_cols a" "ne (m_data a ! i ! q) (m_data b ! i ! q)"
        by blast
      with ilt have "\<not> ?rest i" by blast
      with res show ?thesis by simp
    next
      case same: True
      then have inner': "op_eq_inner ne a b i j 0 0 = Inr None" using inner by simp
      have step: "op_eq_outer ne a b i j = op_eq_outer ne a b (Suc i) (Suc j)"
        using True inner' by (simp add: op_eq_outer.simps [of ne a b i j])
      have ih: "op_eq_outer ne a b (Suc i) (Suc j) = Inr (?rest (Suc i))"
        using "1.IH" [OF True inner' refl "1.prems"(1-4)] "1.prems"(5) by simp
      have "?rest i \<longleftrightarrow> ?rest (Suc i)"
      proof
        assume "?rest i"
        then show "?rest (Suc i)" by auto
      next
        assume r: "?rest (Suc i)"
        show "?rest i"
        proof (intro allI impI)
          fix p q
          assume pq: "i \<le> p \<and> p < m_rows a \<and> q < m_cols a"
          show "\<not> ne (m_data a ! p ! q) (m_data b ! p ! q)"
          proof (cases "p = i")
            case True
            with same pq show ?thesis by simp
          next
            case False
            with pq have "Suc i \<le> p" by arith
            with r pq show ?thesis by blast
          qed
        qed
      qed
      with step ih show ?thesis by simp
    qed
  qed
qed

lemma op_eq_spec:
  assumes "well_formed a" "well_formed b" "rows a = rows b" "cols a = cols b"
  shows "op_eq ne a b =
    Inr (\<forall>i j. i < m_rows a \<and> j < m_cols a \<longrightarrow>
           \<not> ne (m_data a ! i ! j) (m_data b ! i ! j))"
proof -
  have "op_eq ne a b = op_eq_outer ne a b 0 0"
    using assms(3,4) by (simp add: op_eq_def)
  also have "\<dots> = Inr (\<forall>p q. 0 \<le> p \<and> p < m_rows a \<and> q < m_cols a \<longrightarrow>
           \<not> ne (m_data a ! p ! q) (m_data b ! p ! q))"
    using assms(3,4) by (intro op_eq_outer_ok [OF assms(1,2)]) (simp_all add: rows_def cols_def)
  finally show ?thesis by simp
qed

lemma out_row_eq:
  "out_row shw st row =
     st\<lparr>of_out := of_out st @ concat (map (\<lambda>j. shw j @ [CHR '' '']) row)\<rparr>"
  by (induction row arbitrary: st) simp_all

lemma out_rows_eq:
  "out_rows shw st rws =
     st\<lparr>of_out := of_out st
        @ concat (map (\<lambda>i. concat (map (\<lambda>j. shw j @ [CHR '' '']) i) @ [CHR 0x0A]) rws)\<rparr>"
  by (induction rws arbitrary: st) (simp_all add: out_row_eq)

lemma op_shift_out_eq:
  "op_shift_out shw out m =
     \<lparr>of_out = out
        @ concat (map (\<lambda>i. concat (map (\<lambda>j. shw j @ [CHR '' '']) i) @ [CHR 0x0A]) (m_data m)),
      of_m = m\<rparr>"
  by (simp add: op_shift_out_def out_rows_eq)

lemma transpose_outer_this: "transpose_outer st i = Inr st' \<Longrightarrow> tf_this st' = tf_this st"
proof (induction st i rule: transpose_outer.induct)
  case (1 st i)
  show ?case
  proof (cases "i < rows (tf_this st)")
    case True
    with "1.prems" obtain st1 where b: "transpose_inner st i 0 = Inr st1"
      and r: "transpose_outer st1 (Suc i) = Inr st'"
      by (auto simp: transpose_outer.simps [of st i] split: sum.splits)
    from "1.IH" [OF True b r] transpose_inner_this [OF b] show ?thesis by simp
  next
    case False
    with "1.prems" show ?thesis by (simp add: transpose_outer.simps [of st i])
  qed
qed

lemma seq_add_body_m: "seq_add_body st i j k x y z = Inr st' \<Longrightarrow> sa_m st' = sa_m st"
  by (auto simp: seq_add_body_def split: sum.splits)

lemma seq_add_inner_m:
  "seq_add_inner st i j k x y z = Inr st' \<Longrightarrow> sa_m st' = sa_m st"
proof (induction st i j k x y z rule: seq_add_inner.induct)
  case (1 st i j k x y z)
  show ?case
  proof (cases "x < cols (sa_this st)")
    case True
    with "1.prems" obtain st1 where b: "seq_add_body st i j k x y z = Inr st1"
      and r: "seq_add_inner st1 i j k (Suc x) (Suc y) (Suc z) = Inr st'"
      by (auto simp: seq_add_inner.simps [of st i j k x y z] split: sum.splits)
    from "1.IH" [OF True b r] seq_add_body_m [OF b] show ?thesis by simp
  next
    case False
    with "1.prems" show ?thesis by (simp add: seq_add_inner.simps [of st i j k x y z])
  qed
qed

lemma seq_add_outer_same:
  "seq_add_outer st i j k = Inr st' \<Longrightarrow> sa_this st' = sa_this st \<and> sa_m st' = sa_m st"
proof (induction st i j k rule: seq_add_outer.induct)
  case (1 st i j k)
  show ?case
  proof (cases "i < rows (sa_this st)")
    case True
    with "1.prems" obtain st1 where b: "seq_add_inner st i j k 0 0 0 = Inr st1"
      and r: "seq_add_outer st1 (Suc i) (Suc j) (Suc k) = Inr st'"
      by (auto simp: seq_add_outer.simps [of st i j k] split: sum.splits)
    from "1.IH" [OF True b r] seq_add_inner_this [OF b] seq_add_inner_m [OF b]
    show ?thesis by simp
  next
    case False
    with "1.prems" show ?thesis by (simp add: seq_add_outer.simps [of st i j k])
  qed
qed

lemma transpose_mat_this: "transpose_mat a = Inr fr \<Longrightarrow> tf_this fr = a"
  by (auto simp: transpose_mat_def dest: transpose_outer_this)

lemma seq_add_same: "seq_add a b = Inr fr \<Longrightarrow> sa_this fr = a \<and> sa_m fr = b"
  by (auto simp: seq_add_def dest: seq_add_outer_same split: if_splits)

lemma well_formed_ext:
  assumes "well_formed a" "well_formed b" "m_rows a = m_rows b" "m_cols a = m_cols b"
    and "\<forall>i j. i < m_rows a \<and> j < m_cols a \<longrightarrow> m_data a ! i ! j = m_data b ! i ! j"
  shows "a = b"
proof -
  have "m_data a = m_data b"
  proof (rule nth_equalityI)
    show "length (m_data a) = length (m_data b)"
      using assms(1-3) by (simp add: well_formed_iff)
  next
    fix i assume "i < length (m_data a)"
    then have i: "i < m_rows a" using assms(1) by (simp add: well_formed_iff)
    show "m_data a ! i = m_data b ! i"
    proof (rule nth_equalityI)
      show "length (m_data a ! i) = length (m_data b ! i)"
        using assms(1-4) i by (simp add: well_formed_iff)
    next
      fix j assume "j < length (m_data a ! i)"
      then have "j < m_cols a" using assms(1) i by (simp add: well_formed_iff)
      with assms(5) i show "m_data a ! i ! j = m_data b ! i ! j" by simp
    qed
  qed
  with assms(3,4) show ?thesis by simp
qed


lemma well_formed_copy: "well_formed mat \<Longrightarrow> well_formed (Matrix_copy mat)"
  by (simp add: well_formed_def Matrix_copy_def)

lemma well_formed_assign:
  "well_formed this \<Longrightarrow> well_formed m \<Longrightarrow> well_formed (op_assign (p, this) (q, m))"
  by (simp add: well_formed_def op_assign_def)

lemma well_formed_elem_assign:
  assumes "well_formed m" "elem_assign m i j v = Inr m'"
  shows "well_formed m'"
proof -
  from assms(2) have "m' = m\<lparr>m_data := (m_data m)[i := (m_data m ! i)[j := v]]\<rparr>"
    by (auto simp: elem_assign_def op_index_def vector_at_def split: sum.splits if_splits)
  with well_formed_update [OF assms(1)] show ?thesis by simp
qed

lemma produced_well_formed: "produced m \<Longrightarrow> well_formed m"
proof (induction rule: produced.induct)
  case (by_ctor r c)
  show ?case by (rule well_formed_ctor)
next
  case (by_ctor_init r c v)
  show ?case by (rule well_formed_ctor_init)
next
  case (by_copy mat)
  then show ?case by (simp add: well_formed_copy)
next
  case (by_assign this m p q)
  then show ?case by (simp add: well_formed_assign)
next
  case (by_transpose this fr)
  with transpose_mat_spec [of this] show ?case by auto
next
  case (by_T this fr)
  with transpose_mat_spec [of this] show ?case by (auto simp: T_mat_def)
next
  case (by_seq_add this m afr)
  show ?case
  proof (cases "rows this = rows m \<and> cols this = cols m")
    case True
    with seq_add_spec [of this m] by_seq_add show ?thesis by auto
  next
    case False
    with by_seq_add.hyps(3) show ?thesis by (auto simp: seq_add_def split: if_splits)
  qed
next
  case (by_plus this m afr)
  show ?case
  proof (cases "rows this = rows m \<and> cols this = cols m")
    case True
    with seq_add_spec [of this m] by_plus show ?thesis by (auto simp: op_plus_def)
  next
    case False
    with by_plus.hyps(3) show ?thesis by (auto simp: op_plus_def seq_add_def split: if_splits)
  qed
next
  case (by_elem_assign m i j v m')
  then show ?case by (simp add: well_formed_elem_assign)
qed

subsection \<open>Element-wise addition\<close>

text \<open>
  C1. For matrices \<open>a\<close> and \<open>b\<close> of the data model with equal \<open>rows()\<close> and equal
  \<open>cols()\<close>, \<^verbatim>\<open>a.seq_add(b)\<close> and \<^verbatim>\<open>a + b\<close> return the same new matrix \<open>r\<close>: it has
  the shape of \<open>a\<close>, and at every position \<open>i < rows\<close>, \<open>j < cols\<close> the element
  \<open>r[i][j]\<close> is \<open>a[i][j] + b[i][j]\<close>. After the call both operands are what they were
  (also when \<open>b\<close> is \<open>a\<close> itself).
\<close>

theorem C1_seq_add:
  fixes a b :: "('a::{zero,plus}) Matrix"
  assumes "well_formed a" "well_formed b" "rows a = rows b" "cols a = cols b"
  shows "\<exists>r. seq_add a b = Inr \<lparr>sa_this = a, sa_m = b, sa_result = r\<rparr>
    \<and> op_plus a b = Inr \<lparr>sa_this = a, sa_m = b, sa_result = r\<rparr>
    \<and> rows r = rows a \<and> cols r = cols a \<and> well_formed r
    \<and> (\<forall>i j. i < rows a \<and> j < cols a \<longrightarrow>
          (\<exists>x y. elem_at a i j = Inr x \<and> elem_at b i j = Inr y
             \<and> elem_at r i j = Inr (x + y)))"
proof -
  from seq_add_spec [OF assms] obtain r
    where run: "seq_add a b = Inr \<lparr>sa_this = a, sa_m = b, sa_result = r\<rparr>"
      and wf: "well_formed r"
      and sh: "m_rows r = m_rows a" "m_cols r = m_cols a"
      and el: "\<forall>i j. i < m_rows a \<and> j < m_cols a \<longrightarrow>
          m_data r ! i ! j = m_data a ! i ! j + m_data b ! i ! j"
    by blast
  have "\<exists>x y. elem_at a i j = Inr x \<and> elem_at b i j = Inr y \<and> elem_at r i j = Inr (x + y)"
    if "i < rows a \<and> j < cols a" for i j
  proof -
    from that have ij: "i < m_rows a" "j < m_cols a" by (simp_all add: rows_def cols_def)
    have "elem_at a i j = Inr (m_data a ! i ! j)"
      by (rule elem_at_wf [OF assms(1) ij])
    moreover have "elem_at b i j = Inr (m_data b ! i ! j)"
      using assms(3,4) ij by (intro elem_at_wf [OF assms(2)]) (simp_all add: rows_def cols_def)
    moreover have "elem_at r i j = Inr (m_data a ! i ! j + m_data b ! i ! j)"
      using sh ij el by (simp add: elem_at_wf [OF wf])
    ultimately show ?thesis by blast
  qed
  with run wf sh show ?thesis
    by (intro exI [of _ r]) (simp add: op_plus_def rows_def cols_def)
qed

theorem C1_seq_add_witness:
  "well_formed \<lparr>m_data = [[1, 2], [3, 4 :: int]], m_rows = 2, m_cols = 2\<rparr>
   \<and> well_formed \<lparr>m_data = [[10, 20], [30, 40 :: int]], m_rows = 2, m_cols = 2\<rparr>
   \<and> (\<exists>r. seq_add \<lparr>m_data = [[1, 2], [3, 4 :: int]], m_rows = 2, m_cols = 2\<rparr>
              \<lparr>m_data = [[10, 20], [30, 40]], m_rows = 2, m_cols = 2\<rparr>
            = Inr \<lparr>sa_this = \<lparr>m_data = [[1, 2], [3, 4]], m_rows = 2, m_cols = 2\<rparr>,
                   sa_m = \<lparr>m_data = [[10, 20], [30, 40]], m_rows = 2, m_cols = 2\<rparr>,
                   sa_result = r\<rparr>
          \<and> elem_at r 1 0 = Inr 33)"
proof -
  let ?a = "\<lparr>m_data = [[1, 2], [3, 4 :: int]], m_rows = 2, m_cols = 2\<rparr>"
  let ?b = "\<lparr>m_data = [[10, 20], [30, 40 :: int]], m_rows = 2, m_cols = 2\<rparr>"
  have wa: "well_formed ?a" and wb: "well_formed ?b"
    by (simp_all add: well_formed_def)
  have sh: "rows ?a = rows ?b" "cols ?a = cols ?b"
    by (simp_all add: rows_def cols_def)
  from C1_seq_add [OF wa wb sh] obtain r
    where run: "seq_add ?a ?b = Inr \<lparr>sa_this = ?a, sa_m = ?b, sa_result = r\<rparr>"
      and el: "\<forall>i j. i < rows ?a \<and> j < cols ?a \<longrightarrow>
          (\<exists>x y. elem_at ?a i j = Inr x \<and> elem_at ?b i j = Inr y
             \<and> elem_at r i j = Inr (x + y))"
    by blast
  have "(1::nat) < rows ?a \<and> (0::nat) < cols ?a" by (simp add: rows_def cols_def)
  with el obtain x y where "elem_at ?a 1 0 = Inr x" "elem_at ?b 1 0 = Inr y"
    "elem_at r 1 0 = Inr (x + y)"
    by blast
  then have "elem_at r 1 0 = Inr 33"
    by (simp add: elem_at_def op_index_def vector_at_def)
  with wa wb run show ?thesis by blast
qed

subsection \<open>Assertions\<close>

text \<open>
  C2. A failed assertion is the result \<open>Inl AssertionFailed\<close>, which ends the run: no
  operation takes an error as input. When the shapes differ, \<^verbatim>\<open>seq_add\<close>,
  \<^verbatim>\<open>operator+\<close>, \<^verbatim>\<open>operator==\<close> and \<^verbatim>\<open>operator!=\<close> end so; \<^verbatim>\<open>operator[]\<close> ends so
  when \<open>idx \<ge> rows()\<close>. On matrices of the data model, with equal shapes and
  \<open>idx < rows()\<close>, each of these operations, and \<^verbatim>\<open>transpose\<close> and \<^verbatim>\<open>T\<close>, returns a
  value; so on such matrices a failed assertion is the one way any of them fails.
\<close>

theorem C2_assertions:
  fixes a b :: "('a::{zero,plus}) Matrix"
  shows "(rows a \<noteq> rows b \<or> cols a \<noteq> cols b \<longrightarrow>
            seq_add a b = Inl AssertionFailed \<and> op_plus a b = Inl AssertionFailed
            \<and> op_eq ne a b = Inl AssertionFailed \<and> op_ne ne a b = Inl AssertionFailed)
    \<and> (rows a \<le> idx \<longrightarrow> op_index a idx = Inl AssertionFailed)
    \<and> (well_formed a \<and> idx < rows a \<longrightarrow> op_index a idx = Inr (m_data a ! idx))
    \<and> (well_formed a \<and> well_formed b \<and> rows a = rows b \<and> cols a = cols b \<longrightarrow>
          (\<exists>fr. seq_add a b = Inr fr) \<and> (\<exists>fr. op_plus a b = Inr fr)
          \<and> (\<exists>r. op_eq ne a b = Inr r) \<and> (\<exists>r. op_ne ne a b = Inr r))
    \<and> (well_formed a \<longrightarrow> (\<exists>fr. transpose_mat a = Inr fr) \<and> (\<exists>fr. T_mat a = Inr fr))
    \<and> (well_formed a \<and> well_formed b \<longrightarrow>
          seq_add a b \<noteq> Inl OutOfRange \<and> op_plus a b \<noteq> Inl OutOfRange
          \<and> op_eq ne a b \<noteq> Inl OutOfRange \<and> op_ne ne a b \<noteq> Inl OutOfRange
          \<and> op_index a idx \<noteq> Inl OutOfRange)"
proof -
  have mismatch: "rows a \<noteq> rows b \<or> cols a \<noteq> cols b \<longrightarrow>
      seq_add a b = Inl AssertionFailed \<and> op_plus a b = Inl AssertionFailed
      \<and> op_eq ne a b = Inl AssertionFailed \<and> op_ne ne a b = Inl AssertionFailed"
    by (auto simp: seq_add_def op_plus_def op_eq_def op_ne_def)
  have idx_bad: "rows a \<le> idx \<longrightarrow> op_index a idx = Inl AssertionFailed"
    by (simp add: op_index_def rows_def)
  have idx_ok: "well_formed a \<and> idx < rows a \<longrightarrow> op_index a idx = Inr (m_data a ! idx)"
    by (simp add: op_index_def rows_def vector_at_wf)
  have match: "(\<exists>fr. seq_add a b = Inr fr) \<and> (\<exists>fr. op_plus a b = Inr fr)
      \<and> (\<exists>r. op_eq ne a b = Inr r) \<and> (\<exists>r. op_ne ne a b = Inr r)"
    if h: "well_formed a \<and> well_formed b \<and> rows a = rows b \<and> cols a = cols b"
  proof -
    from h seq_add_spec [of a b] have "\<exists>fr. seq_add a b = Inr fr" by blast
    moreover from h op_eq_spec [of a b ne] have "\<exists>r. op_eq ne a b = Inr r" by blast
    ultimately show ?thesis by (auto simp: op_plus_def op_ne_def)
  qed
  have tr: "well_formed a \<longrightarrow> (\<exists>fr. transpose_mat a = Inr fr) \<and> (\<exists>fr. T_mat a = Inr fr)"
    using transpose_mat_spec [of a] by (auto simp: T_mat_def)
  have only: "seq_add a b \<noteq> Inl OutOfRange \<and> op_plus a b \<noteq> Inl OutOfRange
      \<and> op_eq ne a b \<noteq> Inl OutOfRange \<and> op_ne ne a b \<noteq> Inl OutOfRange
      \<and> op_index a idx \<noteq> Inl OutOfRange"
    if w: "well_formed a \<and> well_formed b"
  proof (cases "rows a = rows b \<and> cols a = cols b")
    case True
    with w match obtain fr r where "seq_add a b = Inr fr" "op_eq ne a b = Inr r" by blast
    moreover have "op_index a idx \<noteq> Inl OutOfRange"
      using w by (simp add: op_index_def vector_at_def well_formed_iff)
    ultimately show ?thesis by (simp add: op_plus_def op_ne_def)
  next
    case False
    with mismatch have "seq_add a b = Inl AssertionFailed" "op_plus a b = Inl AssertionFailed"
      "op_eq ne a b = Inl AssertionFailed" "op_ne ne a b = Inl AssertionFailed"
      by blast+
    moreover have "op_index a idx \<noteq> Inl OutOfRange"
      using w by (simp add: op_index_def vector_at_def well_formed_iff)
    ultimately show ?thesis by simp
  qed
  from mismatch idx_bad idx_ok match tr only show ?thesis by blast
qed

theorem C2_assertions_witness:
  "seq_add (Matrix_ctor 2 2 :: int Matrix) (Matrix_ctor 2 3) = Inl AssertionFailed
   \<and> op_eq integral_ne (Matrix_ctor 2 2 :: int Matrix) (Matrix_ctor 2 3) = Inl AssertionFailed
   \<and> op_index (Matrix_ctor 2 2 :: int Matrix) 2 = Inl AssertionFailed
   \<and> op_index (Matrix_ctor 2 2 :: int Matrix) 1 = Inr [0, 0]
   \<and> (\<exists>r. op_eq integral_ne (Matrix_ctor 2 2 :: int Matrix) (Matrix_ctor 2 2) = Inr r)
   \<and> (\<exists>fr. transpose_mat (Matrix_ctor 2 2 :: int Matrix) = Inr fr)"
proof -
  let ?a = "Matrix_ctor 2 2 :: int Matrix"
  let ?b = "Matrix_ctor 2 3 :: int Matrix"
  have sh: "rows ?a \<noteq> rows ?b \<or> cols ?a \<noteq> cols ?b" "rows ?a \<le> 2" "(1::nat) < rows ?a"
    "rows ?a = rows ?a" "cols ?a = cols ?a"
    by (simp_all add: rows_def cols_def Matrix_ctor_def)
  have wf: "well_formed ?a" by (rule well_formed_ctor)
  have row: "m_data ?a ! 1 = [0, 0]"
    by (simp add: Matrix_ctor_data numeral_2_eq_2)
  from C2_assertions [of ?a ?b integral_ne 2] sh
  have "seq_add ?a ?b = Inl AssertionFailed" "op_eq integral_ne ?a ?b = Inl AssertionFailed"
    "op_index ?a 2 = Inl AssertionFailed"
    by blast+
  moreover from C2_assertions [of ?a ?a integral_ne 1] sh wf
  have "op_index ?a 1 = Inr (m_data ?a ! 1)" "\<exists>r. op_eq integral_ne ?a ?a = Inr r"
    "\<exists>fr. transpose_mat ?a = Inr fr"
    by blast+
  ultimately show ?thesis using row by simp
qed

subsection \<open>Transpose\<close>

text \<open>
  C3. For a matrix \<open>a\<close> of the data model, \<^verbatim>\<open>a.transpose()\<close> and \<^verbatim>\<open>a.T()\<close> return the
  same new matrix \<open>t\<close> with \<open>rows t = cols a\<close> and \<open>cols t = rows a\<close>, in which
  \<open>t[j][i]\<close> reads the same as \<open>a[i][j]\<close> for every \<open>i < rows a\<close> and \<open>j < cols a\<close>;
  \<open>a\<close> is the same after the call.
\<close>

theorem C3_transpose:
  fixes a :: "('a::zero) Matrix"
  assumes "well_formed a"
  shows "\<exists>t. transpose_mat a = Inr \<lparr>tf_this = a, tf_t = t\<rparr>
    \<and> T_mat a = Inr \<lparr>tf_this = a, tf_t = t\<rparr>
    \<and> rows t = cols a \<and> cols t = rows a \<and> well_formed t
    \<and> (\<forall>i j. i < rows a \<and> j < cols a \<longrightarrow>
          elem_at t j i = elem_at a i j \<and> elem_at a i j = Inr (m_data a ! i ! j))"
proof -
  from transpose_mat_spec [OF assms] obtain t
    where run: "transpose_mat a = Inr \<lparr>tf_this = a, tf_t = t\<rparr>"
      and wf: "well_formed t"
      and sh: "m_rows t = m_cols a" "m_cols t = m_rows a"
      and el: "\<forall>i j. i < m_rows a \<and> j < m_cols a \<longrightarrow> m_data t ! j ! i = m_data a ! i ! j"
    by blast
  have "elem_at t j i = elem_at a i j \<and> elem_at a i j = Inr (m_data a ! i ! j)"
    if "i < rows a \<and> j < cols a" for i j
  proof -
    from that have ij: "i < m_rows a" "j < m_cols a" by (simp_all add: rows_def cols_def)
    have "elem_at a i j = Inr (m_data a ! i ! j)"
      by (rule elem_at_wf [OF assms ij])
    moreover have "elem_at t j i = Inr (m_data a ! i ! j)"
      using sh ij el by (simp add: elem_at_wf [OF wf])
    ultimately show ?thesis by simp
  qed
  with run wf sh show ?thesis
    by (intro exI [of _ t]) (simp add: T_mat_def rows_def cols_def)
qed

theorem C3_transpose_witness:
  "well_formed \<lparr>m_data = [[1, 2, 3], [4, 5, 6 :: int]], m_rows = 2, m_cols = 3\<rparr>
   \<and> (\<exists>t. transpose_mat \<lparr>m_data = [[1, 2, 3], [4, 5, 6 :: int]], m_rows = 2, m_cols = 3\<rparr>
            = Inr \<lparr>tf_this = \<lparr>m_data = [[1, 2, 3], [4, 5, 6]], m_rows = 2, m_cols = 3\<rparr>,
                   tf_t = t\<rparr>
          \<and> rows t = 3 \<and> cols t = 2 \<and> elem_at t 2 1 = Inr 6)"
proof -
  let ?a = "\<lparr>m_data = [[1, 2, 3], [4, 5, 6 :: int]], m_rows = 2, m_cols = 3\<rparr>"
  have wa: "well_formed ?a" by (simp add: well_formed_def)
  from C3_transpose [OF wa] obtain t
    where run: "transpose_mat ?a = Inr \<lparr>tf_this = ?a, tf_t = t\<rparr>"
      and sh: "rows t = cols ?a" "cols t = rows ?a"
      and el: "\<forall>i j. i < rows ?a \<and> j < cols ?a \<longrightarrow>
          elem_at t j i = elem_at ?a i j \<and> elem_at ?a i j = Inr (m_data ?a ! i ! j)"
    by blast
  have "(1::nat) < rows ?a \<and> (2::nat) < cols ?a" by (simp add: rows_def cols_def)
  with el have "elem_at t 2 1 = Inr (m_data ?a ! 1 ! 2)" by simp
  then have "elem_at t 2 1 = Inr 6" by simp
  moreover from sh have "rows t = 3" "cols t = 2" by (simp_all add: rows_def cols_def)
  ultimately show ?thesis using wa run by blast
qed

text \<open>
  C4. For a matrix \<open>a\<close> of the data model, transposing the transpose of \<open>a\<close> gives a
  matrix with the shape of \<open>a\<close> that reads the same as \<open>a\<close> at every position; it is
  the matrix \<open>a\<close> again.
\<close>

theorem C4_transpose_twice:
  fixes a :: "('a::zero) Matrix"
  assumes "well_formed a"
  shows "\<exists>t u. transpose_mat a = Inr \<lparr>tf_this = a, tf_t = t\<rparr>
    \<and> transpose_mat t = Inr \<lparr>tf_this = t, tf_t = u\<rparr>
    \<and> rows u = rows a \<and> cols u = cols a
    \<and> (\<forall>i j. i < rows a \<and> j < cols a \<longrightarrow> elem_at u i j = elem_at a i j)
    \<and> u = a"
proof -
  from transpose_mat_spec [OF assms] obtain t
    where run1: "transpose_mat a = Inr \<lparr>tf_this = a, tf_t = t\<rparr>"
      and wf1: "well_formed t"
      and sh1: "m_rows t = m_cols a" "m_cols t = m_rows a"
      and el1: "\<forall>i j. i < m_rows a \<and> j < m_cols a \<longrightarrow> m_data t ! j ! i = m_data a ! i ! j"
    by blast
  from transpose_mat_spec [OF wf1] obtain u
    where run2: "transpose_mat t = Inr \<lparr>tf_this = t, tf_t = u\<rparr>"
      and wf2: "well_formed u"
      and sh2: "m_rows u = m_cols t" "m_cols u = m_rows t"
      and el2: "\<forall>j i. j < m_rows t \<and> i < m_cols t \<longrightarrow> m_data u ! i ! j = m_data t ! j ! i"
    by blast
  have "\<forall>i j. i < m_rows u \<and> j < m_cols u \<longrightarrow> m_data u ! i ! j = m_data a ! i ! j"
    using sh1 sh2 el1 el2 by simp
  with wf2 assms sh1 sh2 have "u = a"
    by (intro well_formed_ext) simp_all
  with run1 run2 show ?thesis by blast
qed

theorem C4_transpose_twice_witness:
  "well_formed \<lparr>m_data = [[1, 2, 3], [4, 5, 6 :: int]], m_rows = 2, m_cols = 3\<rparr>
   \<and> (\<exists>t. transpose_mat \<lparr>m_data = [[1, 2, 3], [4, 5, 6 :: int]], m_rows = 2, m_cols = 3\<rparr>
            = Inr \<lparr>tf_this = \<lparr>m_data = [[1, 2, 3], [4, 5, 6]], m_rows = 2, m_cols = 3\<rparr>,
                   tf_t = t\<rparr>
          \<and> transpose_mat t
            = Inr \<lparr>tf_this = t,
                   tf_t = \<lparr>m_data = [[1, 2, 3], [4, 5, 6]], m_rows = 2, m_cols = 3\<rparr>\<rparr>)"
proof -
  let ?a = "\<lparr>m_data = [[1, 2, 3], [4, 5, 6 :: int]], m_rows = 2, m_cols = 3\<rparr>"
  have wa: "well_formed ?a" by (simp add: well_formed_def)
  from C4_transpose_twice [OF wa] wa show ?thesis by blast
qed

subsection \<open>Equality\<close>

text \<open>
  C5, as the code has it. For matrices \<open>a\<close> and \<open>b\<close> of the data model with equal
  shapes, \<^verbatim>\<open>a == b\<close> returns true exactly when at no position the elements \<open>a[i][j]\<close>
  and \<open>b[i][j]\<close> compare unequal under the element type's \<^verbatim>\<open>!=\<close>, and \<^verbatim>\<open>a != b\<close>
  returns the negation of that. \<^verbatim>\<open>a == a\<close> returns true exactly when no element of
  \<open>a\<close> compares unequal to itself. For an integral element type \<^verbatim>\<open>a == b\<close> is true
  exactly when \<open>a[i][j]\<close> and \<open>b[i][j]\<close> read the same at every position, and
  \<^verbatim>\<open>a == a\<close> is true.
\<close>

theorem C5_equality:
  assumes "well_formed a" "well_formed b" "rows a = rows b" "cols a = cols b"
  shows "op_eq ne a b
      = Inr (\<forall>i j. i < rows a \<and> j < cols a \<longrightarrow>
               (\<exists>l r. elem_at a i j = Inr l \<and> elem_at b i j = Inr r \<and> \<not> ne l r))
    \<and> op_ne ne a b
      = Inr (\<not> (\<forall>i j. i < rows a \<and> j < cols a \<longrightarrow>
               (\<exists>l r. elem_at a i j = Inr l \<and> elem_at b i j = Inr r \<and> \<not> ne l r)))
    \<and> op_eq ne a a
      = Inr (\<forall>i j. i < rows a \<and> j < cols a \<longrightarrow> (\<exists>l. elem_at a i j = Inr l \<and> \<not> ne l l))
    \<and> op_eq integral_ne a b
      = Inr (\<forall>i j. i < rows a \<and> j < cols a \<longrightarrow> elem_at a i j = elem_at b i j)
    \<and> op_ne integral_ne a b
      = Inr (\<not> (\<forall>i j. i < rows a \<and> j < cols a \<longrightarrow> elem_at a i j = elem_at b i j))
    \<and> op_eq integral_ne a a = Inr True"
proof -
  have ea: "elem_at a i j = Inr (m_data a ! i ! j)"
    and eb: "elem_at b i j = Inr (m_data b ! i ! j)"
    if "i < m_rows a \<and> j < m_cols a" for i j
    using that assms(3,4)
    by (simp_all add: elem_at_wf [OF assms(1)] elem_at_wf [OF assms(2)] rows_def cols_def)
  have two: "(\<forall>i j. i < rows a \<and> j < cols a \<longrightarrow>
        (\<exists>l r. elem_at a i j = Inr l \<and> elem_at b i j = Inr r \<and> \<not> cmp l r))
    \<longleftrightarrow> (\<forall>i j. i < m_rows a \<and> j < m_cols a \<longrightarrow>
        \<not> cmp (m_data a ! i ! j) (m_data b ! i ! j))" for cmp
    using ea eb by (simp add: rows_def cols_def)
  have one: "(\<forall>i j. i < rows a \<and> j < cols a \<longrightarrow> (\<exists>l. elem_at a i j = Inr l \<and> \<not> ne l l))
    \<longleftrightarrow> (\<forall>i j. i < m_rows a \<and> j < m_cols a \<longrightarrow>
        \<not> ne (m_data a ! i ! j) (m_data a ! i ! j))"
    using ea by (simp add: rows_def cols_def)
  have plain: "(\<forall>i j. i < rows a \<and> j < cols a \<longrightarrow> elem_at a i j = elem_at b i j)
    \<longleftrightarrow> (\<forall>i j. i < m_rows a \<and> j < m_cols a \<longrightarrow>
        \<not> integral_ne (m_data a ! i ! j) (m_data b ! i ! j))"
    using ea eb by (simp add: rows_def cols_def integral_ne_def)
  have e: "op_eq ne a b
      = Inr (\<forall>i j. i < rows a \<and> j < cols a \<longrightarrow>
               (\<exists>l r. elem_at a i j = Inr l \<and> elem_at b i j = Inr r \<and> \<not> ne l r))"
    unfolding two by (rule op_eq_spec [OF assms])
  have s: "op_eq ne a a
      = Inr (\<forall>i j. i < rows a \<and> j < cols a \<longrightarrow> (\<exists>l. elem_at a i j = Inr l \<and> \<not> ne l l))"
    unfolding one by (rule op_eq_spec [OF assms(1) assms(1) refl refl])
  have i: "op_eq integral_ne a b
      = Inr (\<forall>i j. i < rows a \<and> j < cols a \<longrightarrow> elem_at a i j = elem_at b i j)"
    unfolding plain by (rule op_eq_spec [OF assms])
  have r: "op_eq integral_ne a a = Inr True"
    using op_eq_spec [OF assms(1) assms(1) refl refl, of integral_ne]
    by (simp add: integral_ne_def)
  from e s i r show ?thesis by (simp add: op_ne_def)
qed

theorem C5_equality_witness:
  "op_eq integral_ne \<lparr>m_data = [[1, 2], [3, 4 :: int]], m_rows = 2, m_cols = 2\<rparr>
         \<lparr>m_data = [[1, 2], [3, 5]], m_rows = 2, m_cols = 2\<rparr> = Inr False
   \<and> op_ne integral_ne \<lparr>m_data = [[1, 2], [3, 4 :: int]], m_rows = 2, m_cols = 2\<rparr>
           \<lparr>m_data = [[1, 2], [3, 5]], m_rows = 2, m_cols = 2\<rparr> = Inr True
   \<and> op_eq integral_ne \<lparr>m_data = [[1, 2], [3, 4 :: int]], m_rows = 2, m_cols = 2\<rparr>
           \<lparr>m_data = [[1, 2], [3, 4]], m_rows = 2, m_cols = 2\<rparr> = Inr True"
proof -
  let ?a = "\<lparr>m_data = [[1, 2], [3, 4 :: int]], m_rows = 2, m_cols = 2\<rparr>"
  let ?b = "\<lparr>m_data = [[1, 2], [3, 5 :: int]], m_rows = 2, m_cols = 2\<rparr>"
  have wa: "well_formed ?a" and wb: "well_formed ?b"
    by (simp_all add: well_formed_def)
  have sh: "rows ?a = rows ?b" "cols ?a = cols ?b"
    by (simp_all add: rows_def cols_def)
  have "elem_at ?a 1 1 \<noteq> elem_at ?b 1 1" "(1::nat) < rows ?a \<and> (1::nat) < cols ?a"
    by (simp_all add: elem_at_def op_index_def vector_at_def rows_def cols_def)
  then have d: "\<not> (\<forall>i j. i < rows ?a \<and> j < cols ?a \<longrightarrow> elem_at ?a i j = elem_at ?b i j)"
    by blast
  from C5_equality [OF wa wb sh, of integral_ne]
  have "op_eq integral_ne ?a ?b
      = Inr (\<forall>i j. i < rows ?a \<and> j < cols ?a \<longrightarrow> elem_at ?a i j = elem_at ?b i j)"
    and "op_ne integral_ne ?a ?b
      = Inr (\<not> (\<forall>i j. i < rows ?a \<and> j < cols ?a \<longrightarrow> elem_at ?a i j = elem_at ?b i j))"
    and "op_eq integral_ne ?a ?a = Inr True"
    by blast+
  with d show ?thesis by simp
qed

text \<open>
  The claim as written has \<^verbatim>\<open>a == a\<close> true for every matrix. The 1 by 1 matrix of
  \<^verbatim>\<open>double\<close> whose element is the quiet NaN \<open>0x7FF8000000000000\<close> satisfies the
  invariant, and compared with itself \<^verbatim>\<open>operator==\<close> returns false.
\<close>

theorem C5_counterexample:
  "well_formed \<lparr>m_data = [[0x7FF8000000000000 :: double]], m_rows = 1, m_cols = 1\<rparr>
   \<and> op_eq double_ne \<lparr>m_data = [[0x7FF8000000000000]], m_rows = 1, m_cols = 1\<rparr>
        \<lparr>m_data = [[0x7FF8000000000000]], m_rows = 1, m_cols = 1\<rparr> = Inr False"
  by code_simp

subsection \<open>Stream insertion\<close>



lemma blank_lines:
  "\<forall>row \<in> set xs. row = [] \<Longrightarrow>
     concat (map (\<lambda>i. concat (map (\<lambda>j. shw j @ [CHR '' '']) i) @ [CHR 0x0A]) xs)
       = replicate (length xs) (CHR 0x0A)"
  by (induction xs) simp_all

text \<open>
  C10. For a matrix of the data model with \<open>cols() = 0\<close>, streaming writes exactly
  \<open>rows()\<close> newline characters and nothing else. For every matrix of the data model,
  whatever its column count, streaming writes nothing exactly when \<open>rows() = 0\<close>; so
  an \<open>r\<close> by \<open>0\<close> matrix with \<open>r > 0\<close> has a non-empty dump.
\<close>

theorem C10_blank_lines:
  assumes "well_formed m"
  shows "(cols m = 0 \<longrightarrow>
            of_out (op_shift_out shw out m) = out @ replicate (rows m) (CHR 0x0A))
    \<and> (of_out (op_shift_out shw out m) = out \<longleftrightarrow> rows m = 0)"
proof -
  let ?line = "\<lambda>i. concat (map (\<lambda>j. shw j @ [CHR '' '']) i) @ [CHR 0x0A]"
  have out: "of_out (op_shift_out shw out m) = out @ concat (map ?line (m_data m))"
    by (simp add: op_shift_out_eq)
  have len: "length (m_data m) = rows m"
    using assms by (simp add: well_formed_iff rows_def)
  have blank: "concat (map ?line (m_data m)) = replicate (rows m) (CHR 0x0A)" if "cols m = 0"
  proof -
    from that assms have "\<forall>row \<in> set (m_data m). row = []"
      by (simp add: well_formed_def cols_def list_all_iff)
    then have "concat (map ?line (m_data m)) = replicate (length (m_data m)) (CHR 0x0A)"
      by (rule blank_lines)
    with len show ?thesis by simp
  qed
  have "concat (map ?line (m_data m)) = [] \<longleftrightarrow> m_data m = []"
    by (cases "m_data m") simp_all
  with len have "concat (map ?line (m_data m)) = [] \<longleftrightarrow> rows m = 0"
    by auto
  with out blank show ?thesis by simp
qed

theorem C10_blank_lines_witness:
  "well_formed (Matrix_ctor 3 0 :: int Matrix)
   \<and> of_out (op_shift_out show_int [] (Matrix_ctor 3 0)) = ''\<newline>\<newline>\<newline>''
   \<and> of_out (op_shift_out show_int [] (Matrix_ctor 3 0)) \<noteq> []
   \<and> of_out (op_shift_out show_int [] (Matrix_ctor 0 5)) = []"
proof -
  have w3: "well_formed (Matrix_ctor 3 0 :: int Matrix)"
    and w0: "well_formed (Matrix_ctor 0 5 :: int Matrix)"
    by (rule well_formed_ctor)+
  have sh: "cols (Matrix_ctor 3 0 :: int Matrix) = 0" "rows (Matrix_ctor 3 0 :: int Matrix) = 3"
    "rows (Matrix_ctor 0 5 :: int Matrix) = 0"
    by (simp_all add: rows_def cols_def Matrix_ctor_def)
  from C10_blank_lines [OF w3, of show_int "[]"] C10_blank_lines [OF w0, of show_int "[]"] sh w3
  show ?thesis by (simp add: numeral_3_eq_3)
qed

subsection \<open>The invariant\<close>

text \<open>
  C8, as the code has it. Every matrix that the constructors, the copy constructor, copy
  assignment, \<^verbatim>\<open>transpose\<close>/\<^verbatim>\<open>T\<close>, \<^verbatim>\<open>seq_add\<close>/\<^verbatim>\<open>operator+\<close> and element assignment
  produce holds exactly \<open>rows()\<close> rows of exactly \<open>cols()\<close> elements. \<^verbatim>\<open>transpose\<close>
  and \<^verbatim>\<open>seq_add\<close> leave their operands as they were, and an element assignment keeps
  \<open>rows()\<close> and \<open>cols()\<close>. Copy assignment from another object gives the target the
  data, \<open>rows()\<close> and \<open>cols()\<close> of the source; assigning an object to itself changes
  nothing.
\<close>

theorem C8_invariant:
  fixes m a b :: "('a::{zero,plus}) Matrix"
  shows "(produced m \<longrightarrow> well_formed m)
    \<and> (transpose_mat a = Inr tfr \<longrightarrow> tf_this tfr = a)
    \<and> (seq_add a b = Inr afr \<longrightarrow> sa_this afr = a \<and> sa_m afr = b)
    \<and> (elem_assign a i j v = Inr a' \<longrightarrow> rows a' = rows a \<and> cols a' = cols a)
    \<and> (p \<noteq> q \<longrightarrow> rows (op_assign (p, a) (q, b)) = rows b
          \<and> cols (op_assign (p, a) (q, b)) = cols b
          \<and> m_data (op_assign (p, a) (q, b)) = m_data b)
    \<and> op_assign (p, a) (p, b) = a"
proof -
  have "elem_assign a i j v = Inr a' \<longrightarrow> rows a' = rows a \<and> cols a' = cols a"
    by (auto simp: elem_assign_def rows_def cols_def split: sum.splits if_splits)
  moreover have "p \<noteq> q \<longrightarrow> rows (op_assign (p, a) (q, b)) = rows b
      \<and> cols (op_assign (p, a) (q, b)) = cols b
      \<and> m_data (op_assign (p, a) (q, b)) = m_data b"
    by (simp add: op_assign_def rows_def cols_def)
  moreover have "op_assign (p, a) (p, b) = a"
    by (simp add: op_assign_def)
  ultimately show ?thesis
    using produced_well_formed [of m] transpose_mat_this [of a tfr] seq_add_same [of a b afr]
    by blast
qed

theorem C8_invariant_witness:
  "produced (op_assign (0, Matrix_ctor 2 2) (1, Matrix_ctor_init 1 3 (5 :: int)))
   \<and> well_formed (op_assign (0, Matrix_ctor 2 2) (1, Matrix_ctor_init 1 3 (5 :: int)))
   \<and> cols (op_assign (0, Matrix_ctor 2 2) (1, Matrix_ctor_init 1 3 (5 :: int))) = 3"
proof -
  let ?a = "Matrix_ctor 2 2 :: int Matrix"
  let ?b = "Matrix_ctor_init 1 3 (5 :: int)"
  have p: "produced (op_assign (0, ?a) (1, ?b))"
    by (intro by_assign by_ctor by_ctor_init)
  have "cols ?b = 3" by (simp add: cols_def Matrix_ctor_init_def)
  with C8_invariant [of "op_assign (0, ?a) (1, ?b)" ?a _ ?b _ _ _ _ _ 0 1] p
  show ?thesis by simp
qed

text \<open>
  The claim as written says that no operation changes \<open>rows()\<close> or \<open>cols()\<close> of an
  existing matrix. Copy assignment does: a 2 by 2 matrix that is assigned a 1 by 3
  matrix reports one row afterwards.
\<close>

theorem C8_counterexample:
  "rows (op_assign (0, Matrix_ctor 2 2) (1, Matrix_ctor_init 1 3 (5 :: int)))
     \<noteq> rows (Matrix_ctor 2 2 :: int Matrix)"
  by (simp add: op_assign_def rows_def Matrix_ctor_def Matrix_ctor_init_def)

subsection \<open>The demonstration program\<close>

text \<open>
  C9, as the code has it. The program builds three 2 by 2 matrices of \<^verbatim>\<open>int\<close>, filled
  with 4, 8 and 12, adds the first two, and writes: the result of comparing the sum
  with the third matrix (\<open>1\<close>) on a line, the dump of the first operand, the heading
  \<open>Result:\<close> with the dump of the sum, and the heading \<open>C:\<close> with the dump of the
  third matrix, a blank line after each dump. The second operand is not written.
\<close>

theorem C9_demo_output:
  "main = Inr ''1\<newline>4 4 \<newline>4 4 \<newline>\<newline>Result:\<newline>12 12 \<newline>12 12 \<newline>\<newline>C:\<newline>12 12 \<newline>12 12 \<newline>\<newline>''"
  by code_simp

text \<open>
  The claim as written has the dumps of both operands of the addition in the output.
  The dump of the second operand, the matrix filled with 8, is no part of what the
  program writes.
\<close>

theorem C9_counterexample:
  "\<not> isl main
   \<and> \<not> sublist (of_out (op_shift_out show_cint [] (Matrix_ctor_init 2 2 8))) (projr main)"
  by code_simp

end
